theory Spec2Isabelle
  imports Main "HOL-Library.Word" "HOL-Library.Monad_Syntax"
begin

section \<open>Values, memory and the host scheduler\<close>

text \<open>
  The extension \<^verbatim>\<open>fastthread.c\<close> implements Mutex, ConditionVariable, Queue and
  SizedQueue on top of one linked-list type (\<^verbatim>\<open>List\<close>, here \<open>WaitList\<close>) whose nodes
  are allocated with \<^verbatim>\<open>malloc\<close> and recycled through a per-list pool.

  A Ruby \<^verbatim>\<open>VALUE\<close> is one of the special constants, a thread handle, an integer, an
  array or some other object. \<^verbatim>\<open>RTEST\<close> is false exactly for \<^verbatim>\<open>Qfalse\<close> and
  \<^verbatim>\<open>Qnil\<close>.
\<close>

datatype VALUE = Qfalse | Qnil | Qtrue | Qundef
  | Thread nat | Integer int | Array "VALUE list" | Object nat

fun RTEST :: "VALUE \<Rightarrow> bool" where
  "RTEST Qfalse = False"
| "RTEST Qnil = False"
| "RTEST v = True"

type_synonym addr = nat

text \<open>
  \<^verbatim>\<open>struct _Entry { VALUE value; struct _Entry *next; }\<close>. A pointer is
  \<open>addr option\<close>, \<open>None\<close> being \<^verbatim>\<open>NULL\<close>.
\<close>

record Entry =
  e_value :: VALUE
  e_next :: "addr option"

text \<open>
  \<^verbatim>\<open>struct _List { Entry *entries; Entry *last_entry; Entry *entry_pool;
  unsigned long size; }\<close>, with \<^verbatim>\<open>unsigned long\<close> taken as 64 bits.
\<close>

record WaitList =
  entries :: "addr option"
  last_entry :: "addr option"
  entry_pool :: "addr option"
  list_size :: "64 word"

text \<open>
  Modelled from the spec: the host scheduler (section 6 of the specification: resume a
  task, which fails when the task is not resumable; suspend the current task; one
  global non-preemption flag). A thread is runnable, stopped or killed;
  \<^verbatim>\<open>rb_thread_wakeup\<close> raises ThreadError on a killed thread and makes any other
  thread runnable.
\<close>

datatype thread_status = THREAD_RUNNABLE | THREAD_STOPPED | THREAD_KILLED

text \<open>
  The state outside the primitives themselves: the memory that holds the list nodes
  (\<open>cells\<close>, a node per allocated address), the allocation frontier of \<^verbatim>\<open>malloc\<close>
  (\<open>brk\<close>: every address handed out so far is below it), the global
  \<^verbatim>\<open>avoid_mem_pools\<close>, the host's \<^verbatim>\<open>rb_thread_critical\<close>, the running thread
  (what \<^verbatim>\<open>rb_thread_current()\<close> returns) and the host's thread table.
\<close>

record world =
  cells :: "addr \<rightharpoonup> Entry"
  brk :: addr
  avoid_mem_pools :: VALUE
  rb_thread_critical :: int
  curr_thread :: VALUE
  thread_status_of :: "VALUE \<Rightarrow> thread_status"

definition USE_MEM_POOLS :: "world \<Rightarrow> bool" where
  "USE_MEM_POOLS w = (\<not> RTEST (avoid_mem_pools w))"

text \<open>
  \<^verbatim>\<open>malloc(sizeof(Entry))\<close> returns an address that is not in use: the frontier, which
  then moves on. Memory is unbounded (allocation never fails). The block's contents are
  indeterminate; \<open>push_list\<close> writes both fields before anything reads them.
  \<^verbatim>\<open>free\<close> releases a block; releasing or accessing an address that is not allocated
  has no defined result (\<open>None\<close>).
\<close>

definition malloc :: "world \<Rightarrow> addr \<times> world" where
  "malloc w =
     (brk w, w\<lparr>cells := (cells w)(brk w \<mapsto> \<lparr>e_value = Qundef, e_next = None\<rparr>),
               brk := Suc (brk w)\<rparr>)"

definition free :: "world \<Rightarrow> addr \<Rightarrow> world option" where
  "free w a =
     (case cells w a of
        None \<Rightarrow> None
      | Some e \<Rightarrow> Some (w\<lparr>cells := (cells w)(a := None)\<rparr>))"

definition load :: "world \<Rightarrow> addr \<Rightarrow> Entry option" where
  "load w a = cells w a"

definition store :: "world \<Rightarrow> addr \<Rightarrow> (Entry \<Rightarrow> Entry) \<Rightarrow> world option" where
  "store w a f =
     (case cells w a of
        None \<Rightarrow> None
      | Some e \<Rightarrow> Some (w\<lparr>cells := (cells w)(a \<mapsto> f e)\<rparr>))"

section \<open>The list of waiting tasks\<close>

definition init_list :: WaitList where
  "init_list = \<lparr>entries = None, last_entry = None, entry_pool = None, list_size = 0\<rparr>"

text \<open>
  \<^verbatim>\<open>push_list\<close>: take a node from the pool if there is one, else allocate; fill it;
  link it behind \<open>last_entry\<close> (or make it the first entry); count it.
\<close>

definition push_list :: "world \<Rightarrow> WaitList \<Rightarrow> VALUE \<Rightarrow> (world \<times> WaitList) option" where
  "push_list w list v = do {
     (entry, w1, list1) \<leftarrow>
       (case entry_pool list of
          Some p \<Rightarrow> do { e \<leftarrow> load w p; Some (p, w, list\<lparr>entry_pool := e_next e\<rparr>) }
        | None \<Rightarrow> (let (a, w') = malloc w in Some (a, w', list)));
     w2 \<leftarrow> store w1 entry (\<lambda>e. e\<lparr>e_value := v\<rparr>);
     w3 \<leftarrow> store w2 entry (\<lambda>e. e\<lparr>e_next := None\<rparr>);
     (w4, list2) \<leftarrow>
       (case last_entry list1 of
          Some le \<Rightarrow> do { w' \<leftarrow> store w3 le (\<lambda>e. e\<lparr>e_next := Some entry\<rparr>); Some (w', list1) }
        | None \<Rightarrow> Some (w3, list1\<lparr>entries := Some entry\<rparr>));
     Some (w4, list2\<lparr>last_entry := Some entry, list_size := list_size list2 + 1\<rparr>)
   }"



text \<open>
  \<^verbatim>\<open>shift_list\<close>: \<^verbatim>\<open>Qundef\<close> on an empty list; else unlink the first node, read its
  value, and put the node on the pool (\<open>USE_MEM_POOLS\<close>) or free it.
\<close>

definition shift_list :: "world \<Rightarrow> WaitList \<Rightarrow> (VALUE \<times> world \<times> WaitList) option" where
  "shift_list w list =
     (case entries list of
        None \<Rightarrow> Some (Qundef, w, list)
      | Some entry \<Rightarrow> do {
          e \<leftarrow> load w entry;
          let list1 = list\<lparr>entries := e_next e\<rparr>;
          let list2 = (if Some entry = last_entry list1
                       then list1\<lparr>last_entry := None\<rparr> else list1);
          let list3 = list2\<lparr>list_size := list_size list2 - 1\<rparr>;
          let v = e_value e;
          (if USE_MEM_POOLS w then do {
             w' \<leftarrow> store w entry (\<lambda>e. e\<lparr>e_next := entry_pool list3\<rparr>);
             Some (v, w', list3\<lparr>entry_pool := Some entry\<rparr>)
           } else do {
             w' \<leftarrow> free w entry;
             Some (v, w', list3)
           })
        })"

text \<open>\<^verbatim>\<open>free_entries\<close>: free every node of a chain. On a cyclic chain the loop does
  not end.\<close>

partial_function (option) free_entries :: "world \<Rightarrow> addr option \<Rightarrow> world option" where
  "free_entries w first =
     (case first of
        None \<Rightarrow> Some w
      | Some a \<Rightarrow> do {
          e \<leftarrow> load w a;
          w' \<leftarrow> free w a;
          free_entries w' (e_next e)
        })"

text \<open>
  \<^verbatim>\<open>clear_list\<close>: nothing on an empty list (\<open>last_entry\<close> is \<^verbatim>\<open>NULL\<close>); else the
  whole chain is spliced in front of the pool, or freed.
\<close>

definition clear_list :: "world \<Rightarrow> WaitList \<Rightarrow> (world \<times> WaitList) option" where
  "clear_list w list =
     (case last_entry list of
        None \<Rightarrow> Some (w, list)
      | Some le \<Rightarrow> do {
          (w', list') \<leftarrow>
            (if USE_MEM_POOLS w then do {
               w1 \<leftarrow> store w le (\<lambda>e. e\<lparr>e_next := entry_pool list\<rparr>);
               Some (w1, list\<lparr>entry_pool := entries list\<rparr>)
             } else do {
               w1 \<leftarrow> free_entries w (entries list);
               Some (w1, list)
             });
          Some (w', list'\<lparr>entries := None, last_entry := None, list_size := 0\<rparr>)
        })"

text \<open>\<^verbatim>\<open>array_from_list\<close>: a new array, then the value of each live node in chain
  order.\<close>

partial_function (option) array_from_loop ::
  "world \<Rightarrow> addr option \<Rightarrow> VALUE list \<Rightarrow> VALUE list option" where
  "array_from_loop w entry ary =
     (case entry of
        None \<Rightarrow> Some ary
      | Some a \<Rightarrow> do {
          e \<leftarrow> load w a;
          array_from_loop w (e_next e) (ary @ [e_value e])
        })"

definition array_from_list :: "world \<Rightarrow> WaitList \<Rightarrow> VALUE option" where
  "array_from_list w list = map_option Array (array_from_loop w (entries list) [])"


section \<open>Waking and suspending threads\<close>

text \<open>
  How a call ends: it returns a value, it raises an exception (class and message), or
  the calling thread is parked in \<^verbatim>\<open>rb_thread_stop()\<close>. The model of a call runs up to
  the first of these; the state that comes with \<open>Stop\<close> is the one the thread leaves
  behind when it is suspended. What the code does once the thread is resumed is
  said with each function. Every result comes in an \<open>option\<close>: \<open>None\<close> is a call
  with no defined result (an access to memory that is not allocated, or a loop that does
  not end).
\<close>

datatype exc_class = eThreadError | eArgError | eRuntimeError | eTypeError | eRangeError

datatype 'a ctl = Return 'a | Raise exc_class string | Stop

text \<open>
  Modelled from the spec: \<^verbatim>\<open>rb_thread_wakeup\<close> and \<^verbatim>\<open>rb_thread_run\<close> of the host
  (resume a task; the failure on a task that is not resumable is a ThreadError) and
  \<^verbatim>\<open>rb_thread_stop\<close> (suspend the current task, leaving the non-preemption region).
  \<^verbatim>\<open>rb_thread_run\<close> also lets the scheduler switch threads; what other threads do then
  is not part of the call that is modelled.
\<close>

definition rb_thread_wakeup :: "world \<Rightarrow> VALUE \<Rightarrow> (exc_class + VALUE) \<times> world" where
  "rb_thread_wakeup w thread =
     (if thread_status_of w thread = THREAD_KILLED then (Inl eThreadError, w)
      else (Inr thread,
            w\<lparr>thread_status_of := (thread_status_of w)(thread := THREAD_RUNNABLE)\<rparr>))"

definition rb_thread_run :: "world \<Rightarrow> VALUE \<Rightarrow> (exc_class + VALUE) \<times> world" where
  "rb_thread_run w thread = rb_thread_wakeup w thread"

definition rb_thread_stop :: "world \<Rightarrow> world" where
  "rb_thread_stop w =
     w\<lparr>rb_thread_critical := 0,
       thread_status_of := (thread_status_of w)(curr_thread w := THREAD_STOPPED)\<rparr>"

text \<open>\<^verbatim>\<open>wake_thread\<close> and \<^verbatim>\<open>run_thread\<close>: \<^verbatim>\<open>rb_rescue2\<close> turns a ThreadError into
  \<^verbatim>\<open>Qnil\<close>.\<close>

definition wake_thread :: "world \<Rightarrow> VALUE \<Rightarrow> VALUE \<times> world" where
  "wake_thread w thread =
     (case rb_thread_wakeup w thread of
        (Inr v, w') \<Rightarrow> (v, w')
      | (Inl e, w') \<Rightarrow> (Qnil, w'))"

definition run_thread :: "world \<Rightarrow> VALUE \<Rightarrow> VALUE \<times> world" where
  "run_thread w thread =
     (case rb_thread_run w thread of
        (Inr v, w') \<Rightarrow> (v, w')
      | (Inl e, w') \<Rightarrow> (Qnil, w'))"

text \<open>\<^verbatim>\<open>wake_one\<close>: shift and wake until a wake-up succeeds or the list is empty.\<close>

partial_function (option) wake_one_loop ::
  "world \<Rightarrow> WaitList \<Rightarrow> VALUE \<Rightarrow> (VALUE \<times> world \<times> WaitList) option" where
  "wake_one_loop w list waking =
     (if entries list \<noteq> None \<and> \<not> RTEST waking then do {
        (v, w1, list1) \<leftarrow> shift_list w list;
        let (waking', w2) = wake_thread w1 v;
        wake_one_loop w2 list1 waking'
      } else Some (waking, w, list))"

definition wake_one :: "world \<Rightarrow> WaitList \<Rightarrow> (VALUE \<times> world \<times> WaitList) option" where
  "wake_one w list = wake_one_loop w list Qnil"

section \<open>Mutex\<close>

record Mutex =
  owner :: VALUE
  waiting :: WaitList

definition init_mutex :: Mutex where
  "init_mutex = \<lparr>owner = Qnil, waiting = init_list\<rparr>"

definition rb_mutex_try_lock :: "world \<Rightarrow> Mutex \<Rightarrow> VALUE ctl \<times> world \<times> Mutex" where
  "rb_mutex_try_lock w mutex =
     (let w1 = w\<lparr>rb_thread_critical := 1\<rparr> in
      if \<not> RTEST (owner mutex)
      then (Return Qtrue, w1\<lparr>rb_thread_critical := 0\<rparr>, mutex\<lparr>owner := curr_thread w1\<rparr>)
      else (Return Qfalse, w1\<lparr>rb_thread_critical := 0\<rparr>, mutex))"

text \<open>
  \<^verbatim>\<open>lock_mutex\<close>: while the mutex has an owner, the thread puts itself on the waiting
  list and stops. When it is resumed it sets \<^verbatim>\<open>rb_thread_critical\<close> and tests the
  owner again, that is, it goes on as a new call of \<open>lock_mutex\<close> does.
\<close>

definition lock_mutex :: "world \<Rightarrow> Mutex \<Rightarrow> (unit ctl \<times> world \<times> Mutex) option" where
  "lock_mutex w mutex =
     (let current = curr_thread w;
          w1 = w\<lparr>rb_thread_critical := 1\<rparr> in
      if RTEST (owner mutex) then do {
        (w2, l) \<leftarrow> push_list w1 (Mutex.waiting mutex) current;
        Some (Stop, rb_thread_stop w2, mutex\<lparr>Mutex.waiting := l\<rparr>)
      } else Some (Return (), w1\<lparr>rb_thread_critical := 0\<rparr>, mutex\<lparr>owner := current\<rparr>))"

definition unlock_mutex_inner :: "world \<Rightarrow> Mutex \<Rightarrow> (VALUE \<times> world \<times> Mutex) option" where
  "unlock_mutex_inner w mutex =
     (if \<not> RTEST (owner mutex) then Some (Qundef, w, mutex)
      else do {
        let mutex1 = mutex\<lparr>owner := Qnil\<rparr>;
        (waking, w', l) \<leftarrow> wake_one w (Mutex.waiting mutex1);
        Some (waking, w', mutex1\<lparr>Mutex.waiting := l\<rparr>)
      })"

definition set_critical :: "world \<Rightarrow> int \<Rightarrow> world" where
  "set_critical w v = w\<lparr>rb_thread_critical := v\<rparr>"

text \<open>\<^verbatim>\<open>unlock_mutex\<close>: \<^verbatim>\<open>rb_ensure\<close> runs \<open>set_critical\<close> after
  \<open>unlock_mutex_inner\<close>; \<^verbatim>\<open>Qfalse\<close> when the mutex had no owner.\<close>

definition unlock_mutex :: "world \<Rightarrow> Mutex \<Rightarrow> (VALUE \<times> world \<times> Mutex) option" where
  "unlock_mutex w mutex = do {
     let w1 = w\<lparr>rb_thread_critical := 1\<rparr>;
     (waking, w2, mutex') \<leftarrow> unlock_mutex_inner w1 mutex;
     let w3 = set_critical w2 0;
     (if waking = Qundef then Some (Qfalse, w3, mutex')
      else if RTEST waking then Some (Qtrue, snd (run_thread w3 waking), mutex')
      else Some (Qtrue, w3, mutex'))
   }"

section \<open>ConditionVariable\<close>

record ConditionVariable =
  waiting :: WaitList

definition init_condvar :: ConditionVariable where
  "init_condvar = \<lparr>waiting = init_list\<rparr>"

text \<open>
  \<^verbatim>\<open>wait_condvar\<close>: return at once when the mutex has no owner; raise when the owner
  is another thread; else give the mutex up, join the waiting list and stop. When the
  thread is resumed it goes on with \<open>lock_mutex\<close>.
\<close>

definition wait_condvar ::
  "world \<Rightarrow> ConditionVariable \<Rightarrow> Mutex \<Rightarrow> (unit ctl \<times> world \<times> ConditionVariable \<times> Mutex) option" where
  "wait_condvar w condvar mutex =
     (let w1 = w\<lparr>rb_thread_critical := 1\<rparr> in
      if \<not> RTEST (owner mutex)
      then Some (Return (), w1\<lparr>rb_thread_critical := 0\<rparr>, condvar, mutex)
      else if owner mutex \<noteq> curr_thread w1
      then Some (Raise eThreadError ''Not owner'', w1\<lparr>rb_thread_critical := 0\<rparr>, condvar, mutex)
      else do {
        let mutex1 = mutex\<lparr>owner := Qnil\<rparr>;
        (w2, l) \<leftarrow> push_list w1 (ConditionVariable.waiting condvar) (curr_thread w1);
        Some (Stop, rb_thread_stop w2, condvar\<lparr>ConditionVariable.waiting := l\<rparr>, mutex1)
      })"

definition signal_condvar ::
  "world \<Rightarrow> ConditionVariable \<Rightarrow> (world \<times> ConditionVariable) option" where
  "signal_condvar w condvar = do {
     let w1 = w\<lparr>rb_thread_critical := 1\<rparr>;
     (waking, w2, l) \<leftarrow> wake_one w1 (ConditionVariable.waiting condvar);
     let w3 = set_critical w2 0;
     let w4 = (if RTEST waking then snd (run_thread w3 waking) else w3);
     Some (w4, condvar\<lparr>ConditionVariable.waiting := l\<rparr>)
   }"

section \<open>Queue and SizedQueue\<close>

text \<open>
  \<^verbatim>\<open>struct _Queue\<close>. The field \<^verbatim>\<open>values\<close> is \<open>q_values\<close> here. A capacity of 0
  is an unbounded queue.
\<close>

record Queue =
  mutex :: Mutex
  value_available :: ConditionVariable
  space_available :: ConditionVariable
  q_values :: WaitList
  capacity :: "64 word"

definition init_queue :: Queue where
  "init_queue =
     \<lparr>mutex = init_mutex, value_available = init_condvar, space_available = init_condvar,
      q_values = init_list, capacity = 0\<rparr>"





text \<open>
  \<^verbatim>\<open>rb_queue_clear\<close>. When \<open>lock_mutex\<close> stops the thread, the call goes on, once
  the lock is taken, with \<open>clear_list\<close>.
\<close>

definition rb_queue_clear :: "world \<Rightarrow> Queue \<Rightarrow> (unit ctl \<times> world \<times> Queue) option" where
  "rb_queue_clear w queue = do {
     (c, w1, m1) \<leftarrow> lock_mutex w (mutex queue);
     let queue1 = queue\<lparr>mutex := m1\<rparr>;
     (case c of
        Return _ \<Rightarrow> do {
          (w2, l) \<leftarrow> clear_list w1 (q_values queue1);
          let queue2 = queue1\<lparr>q_values := l\<rparr>;
          (w3, cv) \<leftarrow> signal_condvar w2 (space_available queue2);
          let queue3 = queue2\<lparr>space_available := cv\<rparr>;
          (r, w4, m4) \<leftarrow> unlock_mutex w3 (mutex queue3);
          Some (Return (), w4, queue3\<lparr>mutex := m4\<rparr>)
        }
      | Raise e msg \<Rightarrow> Some (Raise e msg, w1, queue1)
      | Stop \<Rightarrow> Some (Stop, w1, queue1))
   }"

text \<open>
  The loop \<^verbatim>\<open>while (!queue->values.entries) wait_condvar(...)\<close> of
  \<^verbatim>\<open>rb_queue_pop\<close>. A thread stopped inside \<open>wait_condvar\<close> takes the lock again
  when it is resumed and tests the queue again.
\<close>

partial_function (option) pop_wait_loop ::
  "world \<Rightarrow> Queue \<Rightarrow> (unit ctl \<times> world \<times> Queue) option" where
  "pop_wait_loop w queue =
     (if entries (q_values queue) = None then do {
        (c, w', cv, m) \<leftarrow> wait_condvar w (value_available queue) (mutex queue);
        let queue' = queue\<lparr>value_available := cv, mutex := m\<rparr>;
        (case c of
           Return _ \<Rightarrow> pop_wait_loop w' queue'
         | Raise e msg \<Rightarrow> Some (Raise e msg, w', queue')
         | Stop \<Rightarrow> Some (Stop, w', queue'))
      } else Some (Return (), w, queue))"

text \<open>What \<^verbatim>\<open>%d\<close> prints for a number that is not negative: its decimal digits.\<close>

function decimal :: "nat \<Rightarrow> string" where
  "decimal n =
     (if n < 10 then [''0123456789'' ! n]
      else decimal (n div 10) @ [''0123456789'' ! (n mod 10)])"
  by pat_completeness auto
termination
  by (relation "measure (\<lambda>n. n)") auto

declare decimal.simps [simp del]

text \<open>\<^verbatim>\<open>rb_queue_pop(argc, argv, self)\<close>; \<open>argv\<close> is the list of arguments, \<open>argc\<close> its
  length.\<close>

definition rb_queue_pop ::
  "world \<Rightarrow> Queue \<Rightarrow> VALUE list \<Rightarrow> (VALUE ctl \<times> world \<times> Queue) option" where
  "rb_queue_pop w queue argv =
     (if 1 < length argv
      then Some (Raise eArgError
                   (''wrong number of arguments ('' @ decimal (length argv) @ '' for 1)''),
                 w, queue)
      else do {
        let should_block = (if length argv = 0 then True else \<not> RTEST (argv ! 0));
        (c, w1, m1) \<leftarrow> lock_mutex w (mutex queue);
        let queue1 = queue\<lparr>mutex := m1\<rparr>;
        (case c of
           Return _ \<Rightarrow>
             (if entries (q_values queue1) = None \<and> \<not> should_block then do {
                (r, w2, m2) \<leftarrow> unlock_mutex w1 (mutex queue1);
                Some (Raise eThreadError ''queue empty'', w2, queue1\<lparr>mutex := m2\<rparr>)
              } else do {
                (c2, w2, queue2) \<leftarrow> pop_wait_loop w1 queue1;
                (case c2 of
                   Return _ \<Rightarrow> do {
                     (result, w3, l) \<leftarrow> shift_list w2 (q_values queue2);
                     let queue3 = queue2\<lparr>q_values := l\<rparr>;
                     (w4, queue4) \<leftarrow>
                       (if capacity queue3 \<noteq> 0
                           \<and> list_size (q_values queue3) < capacity queue3
                        then do {
                          (w', cv) \<leftarrow> signal_condvar w3 (space_available queue3);
                          Some (w', queue3\<lparr>space_available := cv\<rparr>)
                        } else Some (w3, queue3));
                     (r, w5, m5) \<leftarrow> unlock_mutex w4 (mutex queue4);
                     Some (Return result, w5, queue4\<lparr>mutex := m5\<rparr>)
                   }
                 | Raise e msg \<Rightarrow> Some (Raise e msg, w2, queue2)
                 | Stop \<Rightarrow> Some (Stop, w2, queue2))
              })
         | Raise e msg \<Rightarrow> Some (Raise e msg, w1, queue1)
         | Stop \<Rightarrow> Some (Stop, w1, queue1))
      })"

text \<open>The loop \<^verbatim>\<open>for ( ; difference > 0 ; --difference ) signal_condvar(...)\<close> of
  \<^verbatim>\<open>rb_sized_queue_max_set\<close>.\<close>

function signal_loop ::
  "64 word \<Rightarrow> world \<Rightarrow> ConditionVariable \<Rightarrow> (world \<times> ConditionVariable) option" where
  "signal_loop difference w condvar =
     (if difference > 0 then
        (case signal_condvar w condvar of
           None \<Rightarrow> None
         | Some (w', condvar') \<Rightarrow> signal_loop (difference - 1) w' condvar')
      else Some (w, condvar))"
  by pat_completeness auto
termination
proof (relation "measure (\<lambda>(difference, w, condvar). unat difference)")
  show "wf (measure (\<lambda>(difference, w, condvar). unat difference))" by simp
next
  fix difference :: "64 word" and w :: world and condvar :: ConditionVariable
    and x2 :: "world \<times> ConditionVariable" and x y
  assume pos: "0 < difference"
  then have "0 < unat difference"
    by (simp add: word_less_nat_alt)
  with pos have "unat (difference - 1) < unat difference"
    by (simp add: unat_minus_one word_neq_0_conv)
  then show "((difference - 1, x, y), (difference, w, condvar))
      \<in> measure (\<lambda>(difference, w, condvar). unat difference)"
    by simp
qed

definition rb_sized_queue_max_set ::
  "(VALUE \<Rightarrow> (exc_class \<times> string) + 64 word) \<Rightarrow> world \<Rightarrow> Queue \<Rightarrow> VALUE
     \<Rightarrow> (unit ctl \<times> world \<times> Queue) option" where
  "rb_sized_queue_max_set NUM2ULONG w queue v =
     (case NUM2ULONG v of
        Inl (e, msg) \<Rightarrow> Some (Raise e msg, w, queue)
      | Inr new_capacity \<Rightarrow>
          (if new_capacity < 1
           then Some (Raise eArgError ''value must be positive'', w, queue)
           else do {
             (c, w1, m1) \<leftarrow> lock_mutex w (mutex queue);
             let queue1 = queue\<lparr>mutex := m1\<rparr>;
             (case c of
                Return _ \<Rightarrow> do {
                  let difference =
                    (if capacity queue1 \<noteq> 0 \<and> new_capacity > capacity queue1
                     then new_capacity - capacity queue1 else 0);
                  let queue2 = queue1\<lparr>capacity := new_capacity\<rparr>;
                  (w2, cv) \<leftarrow> signal_loop difference w1 (space_available queue2);
                  let queue3 = queue2\<lparr>space_available := cv\<rparr>;
                  (r, w3, m3) \<leftarrow> unlock_mutex w2 (mutex queue3);
                  Some (Return (), w3, queue3\<lparr>mutex := m3\<rparr>)
                }
              | Raise e msg \<Rightarrow> Some (Raise e msg, w1, queue1)
              | Stop \<Rightarrow> Some (Stop, w1, queue1))
           }))"

section \<open>Well-formed lists\<close>

text \<open>
  \<open>chain h p as\<close>: following \<open>e_next\<close> from pointer \<open>p\<close> visits exactly the
  addresses \<open>as\<close>, in this order, and then reaches \<^verbatim>\<open>NULL\<close>. \<open>node_values\<close> reads the
  values stored in a list of nodes.
\<close>

fun chain :: "(addr \<rightharpoonup> Entry) \<Rightarrow> addr option \<Rightarrow> addr list \<Rightarrow> bool" where
  "chain h p [] = (p = None)"
| "chain h p (a # as) =
     (p = Some a \<and> (case h a of None \<Rightarrow> False | Some e \<Rightarrow> chain h (e_next e) as))"

definition node_values :: "(addr \<rightharpoonup> Entry) \<Rightarrow> addr list \<Rightarrow> VALUE list" where
  "node_values h as = map (\<lambda>a. case h a of None \<Rightarrow> Qundef | Some e \<Rightarrow> e_value e) as"

text \<open>
  A list is well formed, with live nodes \<open>as\<close> and pooled nodes \<open>ps\<close>, when
  \<open>entries\<close> leads through \<open>as\<close> and \<open>entry_pool\<close> through \<open>ps\<close>, no node is on both,
  \<open>last_entry\<close> is the last live node, \<open>size\<close> counts the live nodes (as an
  \<^verbatim>\<open>unsigned long\<close>) and every node was handed out by \<open>malloc\<close>.
\<close>

definition wf_list :: "world \<Rightarrow> WaitList \<Rightarrow> addr list \<Rightarrow> addr list \<Rightarrow> bool" where
  "wf_list w l as ps \<longleftrightarrow>
     chain (cells w) (entries l) as \<and> chain (cells w) (entry_pool l) ps
     \<and> distinct (as @ ps)
     \<and> last_entry l = (if as = [] then None else Some (last as))
     \<and> list_size l = word_of_nat (length as)
     \<and> (\<forall>a \<in> set (as @ ps). a < brk w)"

text \<open>
  \<open>same_outside w w' N\<close>: from \<open>w\<close> to \<open>w'\<close> the memory allocated so far has changed
  at most at the addresses \<open>N\<close>; the two globals read by the list code are the same.
\<close>

definition same_outside :: "world \<Rightarrow> world \<Rightarrow> addr set \<Rightarrow> bool" where
  "same_outside w w' N \<longleftrightarrow>
     brk w \<le> brk w'
     \<and> (\<forall>a. a < brk w \<and> a \<notin> N \<longrightarrow> cells w' a = cells w a)
     \<and> avoid_mem_pools w' = avoid_mem_pools w
     \<and> curr_thread w' = curr_thread w"

text \<open>The memory after \<open>push_list\<close> has filled node \<open>n\<close> and linked it behind \<open>le\<close>.\<close>

definition push_cells ::
  "(addr \<rightharpoonup> Entry) \<Rightarrow> addr option \<Rightarrow> addr \<Rightarrow> VALUE \<Rightarrow> (addr \<rightharpoonup> Entry)" where
  "push_cells h le n v =
     (let h1 = h(n \<mapsto> \<lparr>e_value = v, e_next = None\<rparr>) in
      case le of
        None \<Rightarrow> h1
      | Some a \<Rightarrow> (case h1 a of None \<Rightarrow> h1 | Some e \<Rightarrow> h1(a \<mapsto> e\<lparr>e_next := Some n\<rparr>)))"

text \<open>
  \<open>list_inv w l N vs\<close>: the list is well formed, its nodes (live and pooled) are the
  addresses \<open>N\<close> and its live values are \<open>vs\<close>, first in first. \<open>list_step\<close>
  relates the world and the node set before and after an operation on one list: what
  lies outside the list's nodes has not changed, and any new node is newly allocated.
\<close>

definition list_inv :: "world \<Rightarrow> WaitList \<Rightarrow> addr set \<Rightarrow> VALUE list \<Rightarrow> bool" where
  "list_inv w l N vs \<longleftrightarrow>
     (\<exists>as ps. wf_list w l as ps \<and> N = set (as @ ps) \<and> vs = node_values (cells w) as)"

definition list_step :: "world \<Rightarrow> world \<Rightarrow> addr set \<Rightarrow> addr set \<Rightarrow> bool" where
  "list_step w w' N N' \<longleftrightarrow> same_outside w w' N \<and> (\<forall>a \<in> N'. a \<in> N \<or> brk w \<le> a)"

text \<open>
  The lists that the operations build from the empty list. The global
  \<^verbatim>\<open>avoid_mem_pools\<close> may be reassigned between two operations.
\<close>

inductive reachable :: "world \<Rightarrow> WaitList \<Rightarrow> bool" where
  init: "reachable w init_list"
| push: "reachable w l \<Longrightarrow> push_list w l v = Some (w', l') \<Longrightarrow> reachable w' l'"
| shift: "reachable w l \<Longrightarrow> shift_list w l = Some (v, w', l') \<Longrightarrow> reachable w' l'"
| clear: "reachable w l \<Longrightarrow> clear_list w l = Some (w', l') \<Longrightarrow> reachable w' l'"
| pools: "reachable w l \<Longrightarrow> reachable (w\<lparr>avoid_mem_pools := v\<rparr>) l"

text \<open>
  A program over one list: the operations of section 4.1 of the specification. Running
  it records, after each step, the value the step returned, the live sequence
  (\<open>array_from_list\<close>) and the size field. \<open>fifo_run\<close> is the same program on a plain
  sequence of values, as the specification words it: push appends, shift takes the
  earliest value, clear discards all.
\<close>

datatype list_op = Push VALUE | Shift | Clear | Size | ToSequence

type_synonym observation = "VALUE \<times> VALUE \<times> 64 word"

definition list_op_step ::
  "world \<Rightarrow> WaitList \<Rightarrow> list_op \<Rightarrow> (VALUE \<times> world \<times> WaitList) option" where
  "list_op_step w l opr =
     (case opr of
        Push v \<Rightarrow> do { (w', l') \<leftarrow> push_list w l v; Some (Qnil, w', l') }
      | Shift \<Rightarrow> shift_list w l
      | Clear \<Rightarrow> do { (w', l') \<leftarrow> clear_list w l; Some (Qnil, w', l') }
      | Size \<Rightarrow> Some (Integer (uint (list_size l)), w, l)
      | ToSequence \<Rightarrow> do { a \<leftarrow> array_from_list w l; Some (a, w, l) })"

fun run_ops :: "world \<Rightarrow> WaitList \<Rightarrow> list_op list \<Rightarrow> observation list option" where
  "run_ops w l [] = Some []"
| "run_ops w l (opr # oprs) = do {
     (r, w', l') \<leftarrow> list_op_step w l opr;
     s \<leftarrow> array_from_list w' l';
     rest \<leftarrow> run_ops w' l' oprs;
     Some ((r, s, list_size l') # rest)
   }"

definition fifo_step :: "VALUE list \<Rightarrow> list_op \<Rightarrow> VALUE \<times> VALUE list" where
  "fifo_step vs opr =
     (case opr of
        Push v \<Rightarrow> (Qnil, vs @ [v])
      | Shift \<Rightarrow> (case vs of [] \<Rightarrow> (Qundef, []) | x # xs \<Rightarrow> (x, xs))
      | Clear \<Rightarrow> (Qnil, [])
      | Size \<Rightarrow> (Integer (uint (word_of_nat (length vs) :: 64 word)), vs)
      | ToSequence \<Rightarrow> (Array vs, vs))"

fun fifo_run :: "VALUE list \<Rightarrow> list_op list \<Rightarrow> observation list" where
  "fifo_run vs [] = []"
| "fifo_run vs (opr # oprs) =
     (let (r, vs') = fifo_step vs opr
      in (r, Array vs', word_of_nat (length vs')) # fifo_run vs' oprs)"

section \<open>Example states\<close>

text \<open>A world with no list node allocated, pooling switched on, thread 1 running.\<close>

definition world0 :: world where
  "world0 =
     \<lparr>cells = Map.empty, brk = 0, avoid_mem_pools = Qnil, rb_thread_critical = 0,
      curr_thread = Thread 1, thread_status_of = (\<lambda>t. THREAD_RUNNABLE)\<rparr>"

text \<open>The list after one push of thread 1 into the empty list, and after shifting it
  out again (pooling on): node 0 has moved to the pool.\<close>

definition world1 :: world where
  "world1 = world0\<lparr>cells := [0 \<mapsto> \<lparr>e_value = Thread 1, e_next = None\<rparr>], brk := 1\<rparr>"

definition list1 :: WaitList where
  "list1 = \<lparr>entries = Some 0, last_entry = Some 0, entry_pool = None, list_size = 1\<rparr>"

definition list1_shifted :: WaitList where
  "list1_shifted = \<lparr>entries = None, last_entry = None, entry_pool = Some 0, list_size = 0\<rparr>"

section \<open>The state of a queue, seen from outside\<close>

text \<open>
  What the operations of a queue can observe of it: the owner of its mutex, the threads
  held by its three wait lists (the one of the mutex and the ones of the two condition
  variables), the values it holds, all in list order, and its capacity.
\<close>

record queue_view =
  v_owner :: VALUE
  v_mutex_waiting :: "VALUE list"
  v_value_waiting :: "VALUE list"
  v_space_waiting :: "VALUE list"
  v_values :: "VALUE list"
  v_capacity :: "64 word"

text \<open>
  \<open>queue_inv w q A\<close>: in world \<open>w\<close> the four lists of \<open>q\<close> are well formed, hold the
  sequences of \<open>A\<close>, and are built from pairwise disjoint sets of nodes; the owner and
  the capacity are those of \<open>A\<close>.
\<close>

definition queue_inv :: "world \<Rightarrow> Queue \<Rightarrow> queue_view \<Rightarrow> bool" where
  "queue_inv w q A \<longleftrightarrow>
     owner (mutex q) = v_owner A \<and> capacity q = v_capacity A
     \<and> (\<exists>Nm Nv Ns Nq.
           list_inv w (Mutex.waiting (mutex q)) Nm (v_mutex_waiting A)
         \<and> list_inv w (ConditionVariable.waiting (value_available q)) Nv (v_value_waiting A)
         \<and> list_inv w (ConditionVariable.waiting (space_available q)) Ns (v_space_waiting A)
         \<and> list_inv w (q_values q) Nq (v_values A)
         \<and> Nm \<inter> Nv = {} \<and> Nm \<inter> Ns = {} \<and> Nm \<inter> Nq = {}
         \<and> Nv \<inter> Ns = {} \<and> Nv \<inter> Nq = {} \<and> Ns \<inter> Nq = {})"

text \<open>
  The loop of \<^verbatim>\<open>wake_one\<close> on the sequence of threads a list holds: each round takes
  the first thread off; a killed thread gives \<open>Qnil\<close> and the loop goes on, any other
  thread is made runnable and ends the loop.
\<close>

fun wake_spec ::
  "(VALUE \<Rightarrow> thread_status) \<Rightarrow> VALUE \<Rightarrow> VALUE list
     \<Rightarrow> VALUE \<times> (VALUE \<Rightarrow> thread_status) \<times> VALUE list" where
  "wake_spec st waking [] = (waking, st, [])"
| "wake_spec st waking (t # ts) =
     (if RTEST waking then (waking, st, t # ts)
      else if st t = THREAD_KILLED then wake_spec st Qnil ts
      else wake_spec (st(t := THREAD_RUNNABLE)) t ts)"

text \<open>The same in closed form: killed threads at the front are dropped, the first
  thread after them is made runnable and removed.\<close>

type_synonym status_table = "VALUE \<Rightarrow> thread_status"

definition wake_first ::
  "status_table \<Rightarrow> VALUE list \<Rightarrow> VALUE \<times> status_table \<times> VALUE list" where
  "wake_first st vs =
     (case dropWhile (\<lambda>t. st t = THREAD_KILLED) vs of
        [] \<Rightarrow> (Qnil, st, [])
      | t # ts \<Rightarrow> (t, st(t := THREAD_RUNNABLE), ts))"

text \<open>
  The effect of one \<^verbatim>\<open>signal_condvar\<close> on the ``space available'' condition variable,
  and of \<^verbatim>\<open>unlock_mutex\<close> on the mutex of the queue, on the outside view and the
  status table.
\<close>

definition signal_space_view :: "queue_view \<times> status_table \<Rightarrow> queue_view \<times> status_table" where
  "signal_space_view X =
     (case wake_first (snd X) (v_space_waiting (fst X)) of
        (wk, st', vs') \<Rightarrow> ((fst X)\<lparr>v_space_waiting := vs'\<rparr>, st'))"

definition unlock_view :: "queue_view \<times> status_table \<Rightarrow> queue_view \<times> status_table" where
  "unlock_view X =
     (if RTEST (v_owner (fst X)) then
        (case wake_first (snd X) (v_mutex_waiting (fst X)) of
           (wk, st', vs') \<Rightarrow> ((fst X)\<lparr>v_owner := Qnil, v_mutex_waiting := vs'\<rparr>, st'))
      else X)"

text \<open>
  \<open>queue_sim w q (A, st)\<close>: \<open>queue_inv\<close>, the status table of the world is \<open>st\<close>, and
  the current thread and all waiting threads are thread objects (neither \<open>nil\<close> nor
  \<open>false\<close>), as every value the code puts into a wait list is a result of
  \<^verbatim>\<open>rb_thread_current()\<close>.
\<close>

definition queue_sim :: "world \<Rightarrow> Queue \<Rightarrow> queue_view \<times> status_table \<Rightarrow> bool" where
  "queue_sim w q X \<longleftrightarrow>
     queue_inv w q (fst X) \<and> thread_status_of w = snd X
     \<and> RTEST (curr_thread w)
     \<and> list_all RTEST (v_mutex_waiting (fst X))
     \<and> list_all RTEST (v_value_waiting (fst X))
     \<and> list_all RTEST (v_space_waiting (fst X))"

text \<open>A caller that finds the mutex held is appended to the wait list of the mutex and
  stopped; this is where the model of the call ends.\<close>

definition lock_wait_view :: "VALUE \<Rightarrow> queue_view \<times> status_table \<Rightarrow> queue_view \<times> status_table" where
  "lock_wait_view t X =
     ((fst X)\<lparr>v_mutex_waiting := v_mutex_waiting (fst X) @ [t]\<rparr>, (snd X)(t := THREAD_STOPPED))"

text \<open>The outside view after \<^verbatim>\<open>rb_queue_clear\<close> by thread \<open>t\<close> on a free mutex: no
  values, one \<open>signal_space_view\<close>, one \<open>unlock_view\<close>.\<close>

definition clear_view :: "VALUE \<Rightarrow> queue_view \<times> status_table \<Rightarrow> queue_view \<times> status_table" where
  "clear_view t X =
     unlock_view (signal_space_view ((fst X)\<lparr>v_owner := t, v_values := []\<rparr>, snd X))"

text \<open>The number of signals \<^verbatim>\<open>rb_sized_queue_max_set\<close> sends, as a natural number:
  \<open>new - old\<close> when \<open>old\<close> is not zero and smaller than \<open>new\<close>, none otherwise; and the
  outside view after the call by thread \<open>t\<close> on a free mutex.\<close>

definition max_set_signals :: "64 word \<Rightarrow> 64 word \<Rightarrow> nat" where
  "max_set_signals old new = (if old \<noteq> 0 \<and> old < new then unat new - unat old else 0)"

definition max_set_view ::
  "VALUE \<Rightarrow> 64 word \<Rightarrow> queue_view \<times> status_table \<Rightarrow> queue_view \<times> status_table" where
  "max_set_view t n X =
     unlock_view ((signal_space_view ^^ max_set_signals (v_capacity (fst X)) n)
                    ((fst X)\<lparr>v_owner := t, v_capacity := n\<rparr>, snd X))"



definition idle_view :: "64 word \<Rightarrow> VALUE list \<Rightarrow> queue_view" where
  "idle_view c vs =
     \<lparr>v_owner = Qnil, v_mutex_waiting = [], v_value_waiting = [], v_space_waiting = [],
      v_values = vs, v_capacity = c\<rparr>"

section \<open>An example queue\<close>

text \<open>
  Thread 4 is running; the queue holds the value 7 in node 0, and the threads 5, 6 and
  8 are stopped, waiting in this order in the nodes 2, 3 and 4 of the ``space
  available'' list. The capacity is a parameter.
\<close>

definition ex_status :: status_table where
  "ex_status =
     (\<lambda>t. THREAD_RUNNABLE)
       (Thread 5 := THREAD_STOPPED, Thread 6 := THREAD_STOPPED, Thread 8 := THREAD_STOPPED)"

definition ex_world :: world where
  "ex_world =
     \<lparr>cells = [0 \<mapsto> \<lparr>e_value = Integer 7, e_next = None\<rparr>,
               2 \<mapsto> \<lparr>e_value = Thread 5, e_next = Some 3\<rparr>,
               3 \<mapsto> \<lparr>e_value = Thread 6, e_next = Some 4\<rparr>,
               4 \<mapsto> \<lparr>e_value = Thread 8, e_next = None\<rparr>],
      brk = 5, avoid_mem_pools = Qnil, rb_thread_critical = 0,
      curr_thread = Thread 4, thread_status_of = ex_status\<rparr>"

definition ex_queue :: "64 word \<Rightarrow> Queue" where
  "ex_queue c =
     \<lparr>mutex = init_mutex, value_available = init_condvar,
      space_available = \<lparr>ConditionVariable.waiting =
        \<lparr>entries = Some 2, last_entry = Some 4, entry_pool = None, list_size = 3\<rparr>\<rparr>,
      q_values = \<lparr>entries = Some 0, last_entry = Some 0, entry_pool = None, list_size = 1\<rparr>,
      capacity = c\<rparr>"

definition ex_view :: "64 word \<Rightarrow> queue_view" where
  "ex_view c =
     \<lparr>v_owner = Qnil, v_mutex_waiting = [], v_value_waiting = [],
      v_space_waiting = [Thread 5, Thread 6, Thread 8], v_values = [Integer 7],
      v_capacity = c\<rparr>"

text \<open>An instance of the host's conversions between numbers and \<^verbatim>\<open>unsigned long\<close>.\<close>

definition ex_NUM2ULONG :: "VALUE \<Rightarrow> (exc_class \<times> string) + 64 word" where
  "ex_NUM2ULONG v =
     (case v of
        Integer i \<Rightarrow> if 0 \<le> i \<and> i < 2 ^ 64 then Inr (word_of_int i)
                     else Inl (eRangeError, ''out of range'')
      | _ \<Rightarrow> Inl (eTypeError, ''not a number''))"


section \<open>Further example states\<close>




text \<open>
  A queue without values whose mutex has owner \<open>t\<close> and one waiter, thread 5, stopped
  in node 2 of the wait list of the mutex; thread 4 is running.
\<close>

definition exm_world :: world where
  "exm_world =
     \<lparr>cells = [2 \<mapsto> \<lparr>e_value = Thread 5, e_next = None\<rparr>],
      brk = 3, avoid_mem_pools = Qnil, rb_thread_critical = 0,
      curr_thread = Thread 4, thread_status_of = ex_status\<rparr>"

definition exm_queue :: "VALUE \<Rightarrow> Queue" where
  "exm_queue t =
     init_queue\<lparr>mutex :=
       \<lparr>owner = t,
        waiting = \<lparr>entries = Some 2, last_entry = Some 2, entry_pool = None, list_size = 1\<rparr>\<rparr>\<rparr>"

definition exm_view :: "VALUE \<Rightarrow> queue_view" where
  "exm_view t =
     \<lparr>v_owner = t, v_mutex_waiting = [Thread 5], v_value_waiting = [],
      v_space_waiting = [], v_values = [], v_capacity = 0\<rparr>"

section \<open>The list operations keep a list well formed\<close>

lemma chain_cong: "(\<And>a. a \<in> set as \<Longrightarrow> h' a = h a) \<Longrightarrow> chain h' p as = chain h p as"
  by (induction as arbitrary: p) (auto split: option.splits)

lemma chain_None [simp]: "chain h None as = (as = [])"
  by (cases as) auto

lemma chain_dom: "chain h p as \<Longrightarrow> a \<in> set as \<Longrightarrow> h a \<noteq> None"
  by (induction as arbitrary: p) (auto split: option.splits)

lemma chain_unique: "chain h p as \<Longrightarrow> chain h p bs \<Longrightarrow> as = bs"
proof (induction as arbitrary: p bs)
  case Nil then show ?case by simp
next
  case (Cons a as)
  then show ?case by (cases bs) (auto split: option.splits)
qed

lemma chain_splice:
  assumes "chain h p as" "as \<noteq> []" "distinct as" "chain h q ps" "set as \<inter> set ps = {}"
    and "h (last as) = Some el"
  shows "chain (h(last as \<mapsto> el\<lparr>e_next := q\<rparr>)) p (as @ ps)"
  using assms
proof (induction as arbitrary: p)
  case Nil then show ?case by simp
next
  case (Cons a as)
  show ?case
  proof (cases "as = []")
    case True
    with Cons.prems have "a \<notin> set ps" by auto
    then have "chain (h(a \<mapsto> el\<lparr>e_next := q\<rparr>)) q ps = chain h q ps"
      by (intro chain_cong) auto
    with Cons.prems(4) have "chain (h(a \<mapsto> el\<lparr>e_next := q\<rparr>)) q ps" by blast
    moreover from Cons.prems True have "p = Some a" by simp
    ultimately show ?thesis unfolding True
      by (simp only: last.simps append.simps if_True chain.simps) simp
  next
    case False
    with Cons.prems obtain e where e: "h a = Some e" "chain h (e_next e) as" and p: "p = Some a"
      by (auto split: option.splits)
    from False Cons.prems have la: "last (a # as) = last as" and ne: "a \<noteq> last as"
      by auto
    from Cons.prems False have "distinct as" "set as \<inter> set ps = {}" "h (last as) = Some el"
      by auto
    from Cons.IH[OF e(2) False this(1) Cons.prems(4) this(2) this(3)]
    have IH: "chain (h(last as \<mapsto> el\<lparr>e_next := q\<rparr>)) (e_next e) (as @ ps)" .
    from ne e have "(h(last as \<mapsto> el\<lparr>e_next := q\<rparr>)) a = Some e"
      by simp
    with IH p show ?thesis
      by (simp only: la append_Cons chain.simps option.case)
  qed
qed

lemma node_values_cong:
  "(\<And>a. a \<in> set as \<Longrightarrow> h' a = h a) \<Longrightarrow> node_values h' as = node_values h as"
  by (simp add: node_values_def)

lemma array_from_loop_chain:
  "chain (cells w) p as \<Longrightarrow> array_from_loop w p ary = Some (ary @ node_values (cells w) as)"
proof (induction as arbitrary: p ary)
  case Nil
  then show ?case by (simp add: array_from_loop.simps node_values_def)
next
  case (Cons a as)
  then obtain e where e: "cells w a = Some e" "chain (cells w) (e_next e) as" "p = Some a"
    by (auto split: option.splits)
  from Cons.IH[OF e(2), of "ary @ [e_value e]"] e show ?case
    by (subst array_from_loop.simps) (simp add: load_def node_values_def)
qed

lemma Entry_upd_all [simp]:
  "(e::Entry)\<lparr>e_value := v, e_next := n\<rparr> = \<lparr>e_value = v, e_next = n\<rparr>"
  by (cases e) simp

lemma push_list_malloc:
  assumes "entry_pool l = None" "\<forall>a. last_entry l = Some a \<longrightarrow> cells w a \<noteq> None"
  shows "push_list w l v = Some (w\<lparr>cells := push_cells (cells w) (last_entry l) (brk w) v, brk := Suc (brk w)\<rparr>,
            l\<lparr>entries := (if last_entry l = None then Some (brk w) else entries l),
              last_entry := Some (brk w), list_size := list_size l + 1\<rparr>)"
  using assms
  by (auto simp: push_list_def malloc_def store_def load_def push_cells_def Let_def split: option.splits)

lemma push_list_pool:
  assumes "entry_pool l = Some p" "cells w p = Some ep" "\<forall>a. last_entry l = Some a \<longrightarrow> cells w a \<noteq> None"
  shows "push_list w l v = Some (w\<lparr>cells := push_cells (cells w) (last_entry l) p v\<rparr>,
            l\<lparr>entries := (if last_entry l = None then Some p else entries l),
              last_entry := Some p, entry_pool := e_next ep, list_size := list_size l + 1\<rparr>)"
  using assms
  by (auto simp: push_list_def malloc_def store_def load_def push_cells_def Let_def split: option.splits)

lemma push_cells_chain:
  assumes "chain h p as" "distinct as" "n \<notin> set as"
    and "le = (if as = [] then None else Some (last as))"
  shows "chain (push_cells h le n v) (if as = [] then Some n else p) (as @ [n])"
proof (cases "as = []")
  case True
  with assms show ?thesis by (simp add: push_cells_def)
next
  case False
  define h1 where "h1 = h(n \<mapsto> \<lparr>e_value = v, e_next = None\<rparr>)"
  from False have "last as \<in> set as" by simp
  with assms(1) have "h (last as) \<noteq> None" by (rule chain_dom)
  moreover from False assms(3) have ne: "last as \<noteq> n" by (metis last_in_set)
  ultimately obtain el where el: "h1 (last as) = Some el" by (auto simp: h1_def)
  have "chain h1 p as = chain h p as"
    using assms(3) by (intro chain_cong) (auto simp: h1_def)
  with assms(1) have c1: "chain h1 p as" by simp
  have c2: "chain h1 (Some n) [n]" by (simp add: h1_def)
  from assms(3) have dj: "set as \<inter> set [n] = {}" by simp
  have "chain (h1(last as \<mapsto> el\<lparr>e_next := Some n\<rparr>)) p (as @ [n])"
    by (rule chain_splice[OF c1 False assms(2) c2 dj el])
  moreover have "push_cells h le n v = h1(last as \<mapsto> el\<lparr>e_next := Some n\<rparr>)"
    using False el assms(4) by (simp add: push_cells_def h1_def)
  ultimately show ?thesis using False by simp
qed

lemma push_cells_other:
  "a \<noteq> n \<Longrightarrow> le \<noteq> Some a \<Longrightarrow> push_cells h le n v a = h a"
  by (auto simp: push_cells_def Let_def split: option.splits)

lemma push_cells_value:
  "a \<noteq> n \<Longrightarrow> h a \<noteq> None \<Longrightarrow> map_option e_value (push_cells h le n v a) = map_option e_value (h a)"
  by (auto simp: push_cells_def Let_def split: option.splits)

lemma push_cells_new:
  "map_option e_value (push_cells h le n v n) = Some v"
  by (auto simp: push_cells_def Let_def split: option.splits)

lemma node_values_append [simp]:
  "node_values h (as @ bs) = node_values h as @ node_values h bs"
  by (simp add: node_values_def)

lemma push_cells_node_values:
  assumes "chain h p as" "n \<notin> set as"
  shows "node_values (push_cells h le n v) (as @ [n]) = node_values h as @ [v]"
proof -
  have "node_values (push_cells h le n v) as = node_values h as"
    unfolding node_values_def
  proof (rule map_cong[OF refl])
    fix a assume a: "a \<in> set as"
    with assms have "a \<noteq> n" "h a \<noteq> None" by (auto dest: chain_dom)
    with push_cells_value[of a n h le v]
    show "(case push_cells h le n v a of None \<Rightarrow> Qundef | Some e \<Rightarrow> e_value e)
        = (case h a of None \<Rightarrow> Qundef | Some e \<Rightarrow> e_value e)"
      by (auto split: option.splits)
  qed
  moreover from push_cells_new[of h le n v]
  have "node_values (push_cells h le n v) [n] = [v]"
    by (auto simp: node_values_def split: option.splits)
  ultimately show ?thesis by simp
qed

lemma push_list_wf:
  assumes wf: "wf_list w l as ps"
  shows "\<exists>w' l' n. push_list w l v = Some (w', l')
           \<and> wf_list w' l' (as @ [n]) (tl ps)
           \<and> n = (if ps = [] then brk w else hd ps)
           \<and> node_values (cells w') (as @ [n]) = node_values (cells w) as @ [v]
           \<and> same_outside w w' (set (as @ ps))
           \<and> brk w' = (if ps = [] then Suc (brk w) else brk w)
           \<and> rb_thread_critical w' = rb_thread_critical w
           \<and> thread_status_of w' = thread_status_of w"
proof -
  define n where "n = (if ps = [] then brk w else hd ps)"
  define h' where "h' = push_cells (cells w) (last_entry l) n v"
  define b' where "b' = (if ps = [] then Suc (brk w) else brk w)"
  define w' where "w' = w\<lparr>cells := h', brk := b'\<rparr>"
  define pool' where "pool' = (case entry_pool l of None \<Rightarrow> None
      | Some p \<Rightarrow> (case cells w p of None \<Rightarrow> None | Some e \<Rightarrow> e_next e))"
  define l' where "l' = l\<lparr>entries := (if last_entry l = None then Some n else entries l),
              last_entry := Some n, entry_pool := pool', list_size := list_size l + 1\<rparr>"
  from wf have ch: "chain (cells w) (entries l) as" and cp: "chain (cells w) (entry_pool l) ps"
    and dist: "distinct (as @ ps)"
    and le: "last_entry l = (if as = [] then None else Some (last as))"
    and sz: "list_size l = word_of_nat (length as)"
    and bd: "\<forall>a \<in> set (as @ ps). a < brk w"
    by (auto simp: wf_list_def)
  have le_ok: "\<forall>a. last_entry l = Some a \<longrightarrow> cells w a \<noteq> None"
  proof (intro allI impI)
    fix a assume "last_entry l = Some a"
    with le have "as \<noteq> []" "a = last as" by (auto split: if_splits)
    then have "a \<in> set as" by simp
    with ch show "cells w a \<noteq> None" by (rule chain_dom)
  qed
  have n_as: "n \<notin> set as"
  proof (cases "ps = []")
    case True with bd show ?thesis by (auto simp: n_def)
  next
    case False
    then have "hd ps \<in> set ps" by simp
    with dist False show ?thesis by (auto simp: n_def)
  qed
  have push: "push_list w l v = Some (w', l')"
  proof (cases ps)
    case Nil
    with cp have "entry_pool l = None" by simp
    from push_list_malloc[OF this le_ok, of v] Nil this show ?thesis
      by (simp add: w'_def l'_def h'_def n_def b'_def pool'_def)
  next
    case (Cons p ps')
    with cp obtain ep where ep: "entry_pool l = Some p" "cells w p = Some ep"
      by (auto split: option.splits)
    from push_list_pool[OF ep le_ok, of v] Cons ep show ?thesis
      by (simp add: w'_def l'_def h'_def n_def b'_def pool'_def)
  qed
  from dist have das: "distinct as" by simp
  have ch': "chain h' (entries l') (as @ [n])"
    using push_cells_chain[OF ch das n_as le, of v] le
    by (auto simp: h'_def l'_def)
  have other: "\<And>a. a \<noteq> n \<Longrightarrow> a \<notin> set as \<Longrightarrow> h' a = cells w a"
  proof -
    fix a assume a: "a \<noteq> n" "a \<notin> set as"
    with le have "last_entry l \<noteq> Some a" by (auto split: if_splits)
    with a show "h' a = cells w a" unfolding h'_def by (intro push_cells_other) auto
  qed
  have cp': "chain h' pool' (tl ps)"
  proof (cases ps)
    case Nil
    with cp show ?thesis by (simp add: pool'_def)
  next
    case (Cons p ps')
    with cp obtain ep where ep: "entry_pool l = Some p" "cells w p = Some ep"
      and c: "chain (cells w) (e_next ep) ps'"
      by (auto split: option.splits)
    from Cons dist have "n \<notin> set ps'" "set ps' \<inter> set as = {}" by (auto simp: n_def)
    then have "chain h' (e_next ep) ps' = chain (cells w) (e_next ep) ps'"
      by (intro chain_cong other) auto
    with c Cons ep show ?thesis by (simp add: pool'_def)
  qed
  have dist': "distinct ((as @ [n]) @ tl ps)"
  proof (cases ps)
    case Nil with das n_as show ?thesis by simp
  next
    case (Cons p ps') with dist show ?thesis by (auto simp: n_def)
  qed
  have bd': "\<forall>a \<in> set ((as @ [n]) @ tl ps). a < b'"
  proof (cases ps)
    case Nil with bd show ?thesis by (auto simp: n_def b'_def less_Suc_eq)
  next
    case (Cons p ps') with bd show ?thesis by (auto simp: n_def b'_def)
  qed
  have "wf_list w' l' (as @ [n]) (tl ps)"
    unfolding wf_list_def using ch' cp' dist' bd' sz
    by (simp add: w'_def l'_def)
  moreover have "node_values (cells w') (as @ [n]) = node_values (cells w) as @ [v]"
    using push_cells_node_values[OF ch n_as] by (simp add: w'_def h'_def)
  moreover have "same_outside w w' (set (as @ ps))"
    unfolding same_outside_def
  proof (intro conjI allI impI)
    show "brk w \<le> brk w'" by (simp add: w'_def b'_def)
    show "avoid_mem_pools w' = avoid_mem_pools w" by (simp add: w'_def)
    show "curr_thread w' = curr_thread w" by (simp add: w'_def)
    fix a assume a: "a < brk w \<and> a \<notin> set (as @ ps)"
    then have "a \<noteq> n" by (cases ps) (auto simp: n_def)
    with a other[of a] show "cells w' a = cells w a" by (simp add: w'_def)
  qed
  ultimately show ?thesis using push
    by (intro exI[of _ w'] exI[of _ l'] exI[of _ n])
       (simp add: w'_def n_def b'_def)
qed

lemma shift_list_empty:
  "entries l = None \<Longrightarrow> shift_list w l = Some (Qundef, w, l)"
  by (simp add: shift_list_def)

lemma same_outside_refl: "same_outside w w N"
  by (simp add: same_outside_def)

lemma word_of_nat_Suc_minus: "(word_of_nat (Suc n) :: 64 word) - 1 = word_of_nat n"
  by simp

lemma shift_list_wf:
  assumes wf: "wf_list w l as ps"
  shows "\<exists>w' l'. shift_list w l
             = Some ((case node_values (cells w) as of [] \<Rightarrow> Qundef | x # xs \<Rightarrow> x), w', l')
           \<and> wf_list w' l' (tl as) (if as \<noteq> [] \<and> USE_MEM_POOLS w then hd as # ps else ps)
           \<and> node_values (cells w') (tl as) = tl (node_values (cells w) as)
           \<and> same_outside w w' (set (as @ ps))
           \<and> brk w' = brk w
           \<and> rb_thread_critical w' = rb_thread_critical w
           \<and> thread_status_of w' = thread_status_of w"
proof (cases as)
  case Nil
  with wf have "entries l = None" by (simp add: wf_list_def)
  with wf Nil show ?thesis
    by (simp add: shift_list_empty node_values_def same_outside_refl)
next
  case (Cons a as')
  from wf have ch: "chain (cells w) (entries l) as" and cp: "chain (cells w) (entry_pool l) ps"
    and dist: "distinct (as @ ps)"
    and le: "last_entry l = (if as = [] then None else Some (last as))"
    and sz: "list_size l = word_of_nat (length as)"
    and bd: "\<forall>a \<in> set (as @ ps). a < brk w"
    by (auto simp: wf_list_def)
  from ch Cons obtain e where e: "entries l = Some a" "cells w a = Some e"
    and c': "chain (cells w) (e_next e) as'"
    by (auto split: option.splits)
  from dist Cons have a_as': "a \<notin> set as'" and a_ps: "a \<notin> set ps" by auto
  define l3 where "l3 = l\<lparr>entries := e_next e,
      last_entry := (if as' = [] then None else Some (last as')),
      list_size := word_of_nat (length as')\<rparr>"
  have last_eq: "(Some a = last_entry l) = (as' = [])"
    using le Cons a_as' by (auto simp: last_in_set)
  have l3_eq: "(let list1 = l\<lparr>entries := e_next e\<rparr>;
           list2 = (if Some a = last_entry list1 then list1\<lparr>last_entry := None\<rparr> else list1)
       in list2\<lparr>list_size := list_size list2 - 1\<rparr>) = l3"
    using last_eq le Cons sz by (auto simp: l3_def Let_def)
  have val: "node_values (cells w) as = e_value e # node_values (cells w) as'"
    using Cons e by (simp add: node_values_def)
  show ?thesis
  proof (cases "USE_MEM_POOLS w")
    case True
    define h' where "h' = (cells w)(a \<mapsto> e\<lparr>e_next := entry_pool l\<rparr>)"
    define w' where "w' = w\<lparr>cells := h'\<rparr>"
    define l' where "l' = l3\<lparr>entry_pool := Some a\<rparr>"
    have sh: "shift_list w l = Some (e_value e, w', l')"
      using e True l3_eq
      by (simp add: shift_list_def load_def store_def w'_def l'_def h'_def l3_def Let_def)
    have "chain h' (e_next e) as' = chain (cells w) (e_next e) as'"
      using a_as' by (intro chain_cong) (auto simp: h'_def)
    with c' have c1: "chain h' (e_next e) as'" by simp
    have "chain h' (entry_pool l) ps = chain (cells w) (entry_pool l) ps"
      using a_ps by (intro chain_cong) (auto simp: h'_def)
    with cp have "chain h' (entry_pool l) ps" by simp
    then have c2: "chain h' (Some a) (a # ps)" by (simp add: h'_def)
    have "wf_list w' l' as' (a # ps)"
      unfolding wf_list_def using c1 c2 dist bd Cons
      by (auto simp: w'_def l'_def l3_def)
    moreover have "node_values (cells w') as' = node_values (cells w) as'"
      using a_as' by (intro node_values_cong) (auto simp: w'_def h'_def)
    moreover have "same_outside w w' (set (as @ ps))"
      using Cons by (auto simp: same_outside_def w'_def h'_def)
    ultimately show ?thesis using sh val Cons True
      by (intro exI[of _ w'] exI[of _ l']) (simp add: w'_def)
  next
    case False
    define h' where "h' = (cells w)(a := None)"
    define w' where "w' = w\<lparr>cells := h'\<rparr>"
    have sh: "shift_list w l = Some (e_value e, w', l3)"
      using e False l3_eq
      by (simp add: shift_list_def load_def free_def w'_def h'_def l3_def Let_def)
    have "chain h' (e_next e) as' = chain (cells w) (e_next e) as'"
      using a_as' by (intro chain_cong) (auto simp: h'_def)
    with c' have c1: "chain h' (e_next e) as'" by simp
    have "chain h' (entry_pool l) ps = chain (cells w) (entry_pool l) ps"
      using a_ps by (intro chain_cong) (auto simp: h'_def)
    with cp have c2: "chain h' (entry_pool l) ps" by simp
    have "wf_list w' l3 as' ps"
      unfolding wf_list_def using c1 c2 dist bd Cons
      by (auto simp: w'_def l3_def)
    moreover have "node_values (cells w') as' = node_values (cells w) as'"
      using a_as' by (intro node_values_cong) (auto simp: w'_def h'_def)
    moreover have "same_outside w w' (set (as @ ps))"
      using Cons by (auto simp: same_outside_def w'_def h'_def)
    ultimately show ?thesis using sh val Cons False
      by (intro exI[of _ w'] exI[of _ l3]) (simp add: w'_def)
  qed
qed

lemma chain_distinct: "chain h p as \<Longrightarrow> distinct as"
proof (induction as arbitrary: p)
  case Nil then show ?case by simp
next
  case (Cons a as)
  then obtain e where e: "h a = Some e" "chain h (e_next e) as" by (auto split: option.splits)
  have "a \<notin> set as"
  proof
    assume "a \<in> set as"
    then obtain xs ys where as: "as = xs @ a # ys" by (auto simp: in_set_conv_decomp)
    have "\<And>q. chain h q (xs @ a # ys) \<Longrightarrow> chain h (e_next e) ys"
    proof (induction xs)
      case Nil with e show ?case by (auto split: option.splits)
    next
      case (Cons x xs) then show ?case by (auto split: option.splits)
    qed
    from this[of "e_next e"] e(2) as have "chain h (e_next e) ys" by simp
    with e(2) have "as = ys" by (rule chain_unique)
    with as have "length ys = length (xs @ a # ys)" by simp
    then show False by simp
  qed
  with Cons.IH[OF e(2)] show ?case by simp
qed

lemma free_entries_chain:
  "chain (cells w) p as \<Longrightarrow>
     free_entries w p = Some (w\<lparr>cells := (\<lambda>a. if a \<in> set as then None else cells w a)\<rparr>)"
proof (induction as arbitrary: w p)
  case Nil
  then show ?case by (subst free_entries.simps) simp
next
  case (Cons a as)
  then obtain e where e: "p = Some a" "cells w a = Some e" "chain (cells w) (e_next e) as"
    by (auto split: option.splits)
  from chain_distinct[OF Cons.prems] have a: "a \<notin> set as" by simp
  define w1 where "w1 = w\<lparr>cells := (cells w)(a := None)\<rparr>"
  have "chain (cells w1) (e_next e) as = chain (cells w) (e_next e) as"
    using a by (intro chain_cong) (auto simp: w1_def)
  with e have "chain (cells w1) (e_next e) as" by simp
  from Cons.IH[OF this]
  have "free_entries w1 (e_next e)
      = Some (w1\<lparr>cells := (\<lambda>b. if b \<in> set as then None else cells w1 b)\<rparr>)" .
  moreover have "w1\<lparr>cells := (\<lambda>b. if b \<in> set as then None else cells w1 b)\<rparr>
      = w\<lparr>cells := (\<lambda>b. if b \<in> set (a # as) then None else cells w b)\<rparr>"
    by (auto simp: w1_def fun_eq_iff)
  ultimately show ?case using e
    by (subst free_entries.simps) (simp add: load_def free_def w1_def)
qed

lemma clear_list_wf:
  assumes wf: "wf_list w l as ps"
  shows "\<exists>w' l'. clear_list w l = Some (w', l')
           \<and> wf_list w' l' [] (if USE_MEM_POOLS w then as @ ps else ps)
           \<and> same_outside w w' (set (as @ ps))
           \<and> brk w' = brk w
           \<and> rb_thread_critical w' = rb_thread_critical w
           \<and> thread_status_of w' = thread_status_of w"
proof (cases "as = []")
  case True
  with wf have "last_entry l = None" by (simp add: wf_list_def)
  with wf True show ?thesis
    by (simp add: clear_list_def same_outside_refl)
next
  case False
  from wf have ch: "chain (cells w) (entries l) as" and cp: "chain (cells w) (entry_pool l) ps"
    and dist: "distinct (as @ ps)"
    and le: "last_entry l = (if as = [] then None else Some (last as))"
    and bd: "\<forall>a \<in> set (as @ ps). a < brk w"
    by (auto simp: wf_list_def)
  from le False have le': "last_entry l = Some (last as)" by simp
  from False have "last as \<in> set as" by simp
  with ch have "cells w (last as) \<noteq> None" by (rule chain_dom)
  then obtain el where el: "cells w (last as) = Some el" by auto
  show ?thesis
  proof (cases "USE_MEM_POOLS w")
    case True
    define h' where "h' = (cells w)(last as \<mapsto> el\<lparr>e_next := entry_pool l\<rparr>)"
    define w' where "w' = w\<lparr>cells := h'\<rparr>"
    define l' where "l' = l\<lparr>entries := None, last_entry := None,
        entry_pool := entries l, list_size := 0\<rparr>"
    have cl: "clear_list w l = Some (w', l')"
      using le' el True by (simp add: clear_list_def store_def w'_def h'_def l'_def)
    from dist have d1: "distinct as" and d2: "set as \<inter> set ps = {}" by auto
    have "chain h' (entries l) (as @ ps)"
      unfolding h'_def by (rule chain_splice[OF ch False d1 cp d2 el])
    then have "wf_list w' l' [] (as @ ps)"
      unfolding wf_list_def using dist bd by (simp add: w'_def l'_def)
    moreover have "same_outside w w' (set (as @ ps))"
      using False by (auto simp: same_outside_def w'_def h'_def)
    ultimately show ?thesis using cl True
      by (intro exI[of _ w'] exI[of _ l']) (simp add: w'_def)
  next
    case Fl: False
    define h' where "h' = (\<lambda>a. if a \<in> set as then None else cells w a)"
    define w' where "w' = w\<lparr>cells := h'\<rparr>"
    define l' where "l' = l\<lparr>entries := None, last_entry := None, list_size := 0\<rparr>"
    have cl: "clear_list w l = Some (w', l')"
      using le' Fl free_entries_chain[OF ch]
      by (simp add: clear_list_def w'_def h'_def l'_def)
    have "chain h' (entry_pool l) ps = chain (cells w) (entry_pool l) ps"
      using dist by (intro chain_cong) (auto simp: h'_def)
    with cp have "chain h' (entry_pool l) ps" by simp
    then have "wf_list w' l' [] ps"
      unfolding wf_list_def using dist bd by (simp add: w'_def l'_def)
    moreover have "same_outside w w' (set (as @ ps))"
      by (auto simp: same_outside_def w'_def h'_def)
    ultimately show ?thesis using cl Fl
      by (intro exI[of _ w'] exI[of _ l']) (simp add: w'_def)
  qed
qed

lemma array_from_list_wf:
  "wf_list w l as ps \<Longrightarrow> array_from_list w l = Some (Array (node_values (cells w) as))"
  using array_from_loop_chain[of w "entries l" as "[]"]
  by (simp add: wf_list_def array_from_list_def)

lemma wf_list_frame:
  assumes "wf_list w l as ps" "same_outside w w' N" "set (as @ ps) \<inter> N = {}"
  shows "wf_list w' l as ps \<and> node_values (cells w') as = node_values (cells w) as"
proof -
  from assms have eq: "\<And>a. a \<in> set (as @ ps) \<Longrightarrow> cells w' a = cells w a"
    and b: "brk w \<le> brk w'"
    by (auto simp: same_outside_def wf_list_def)
  then have "chain (cells w') (entries l) as = chain (cells w) (entries l) as"
    "chain (cells w') (entry_pool l) ps = chain (cells w) (entry_pool l) ps"
    by (auto intro!: chain_cong)
  moreover have "node_values (cells w') as = node_values (cells w) as"
    using eq by (intro node_values_cong) auto
  moreover have "\<forall>a \<in> set (as @ ps). a < brk w'"
  proof
    fix a assume "a \<in> set (as @ ps)"
    with assms(1) have "a < brk w" unfolding wf_list_def by blast
    with b show "a < brk w'" by simp
  qed
  ultimately show ?thesis using assms(1)
    by (simp add: wf_list_def)
qed


section \<open>Reachable lists; pooling is not observable\<close>

lemma wf_list_avoid [simp]: "wf_list (w\<lparr>avoid_mem_pools := v\<rparr>) l as ps = wf_list w l as ps"
  by (simp add: wf_list_def)
lemma wf_list_critical [simp]: "wf_list (w\<lparr>rb_thread_critical := v\<rparr>) l as ps = wf_list w l as ps"
  by (simp add: wf_list_def)
lemma wf_list_status [simp]: "wf_list (w\<lparr>thread_status_of := v\<rparr>) l as ps = wf_list w l as ps"
  by (simp add: wf_list_def)

lemma wf_list_init: "wf_list w init_list [] []"
  by (simp add: wf_list_def init_list_def)

lemma list_inv_init: "list_inv w init_list {} []"
  unfolding list_inv_def using wf_list_init[of w] by (auto simp: node_values_def)

lemma list_invI:
  "wf_list w l as ps \<Longrightarrow> N = set (as @ ps) \<Longrightarrow> vs = node_values (cells w) as
     \<Longrightarrow> list_inv w l N vs"
  unfolding list_inv_def by blast

lemma list_inv_size: "list_inv w l N vs \<Longrightarrow> list_size l = word_of_nat (length vs)"
  by (auto simp: list_inv_def wf_list_def node_values_def)

lemma list_inv_entries: "list_inv w l N vs \<Longrightarrow> (entries l = None) = (vs = [])"
  by (auto simp: list_inv_def wf_list_def node_values_def)

lemma list_inv_array: "list_inv w l N vs \<Longrightarrow> array_from_list w l = Some (Array vs)"
  by (auto simp: list_inv_def array_from_list_wf)

lemma list_inv_bound: "list_inv w l N vs \<Longrightarrow> a \<in> N \<Longrightarrow> a < brk w"
  by (auto simp: list_inv_def wf_list_def)

lemma push_list_inv:
  assumes "list_inv w l N vs"
  shows "\<exists>w' l' N'. push_list w l v = Some (w', l') \<and> list_inv w' l' N' (vs @ [v])
           \<and> list_step w w' N N'
           \<and> rb_thread_critical w' = rb_thread_critical w
           \<and> thread_status_of w' = thread_status_of w"
proof -
  from assms obtain as ps where wf: "wf_list w l as ps" and N: "N = set (as @ ps)"
    and vs: "vs = node_values (cells w) as"
    by (auto simp: list_inv_def)
  from push_list_wf[OF wf, of v] obtain w' l' n where
    p: "push_list w l v = Some (w', l')" and wf': "wf_list w' l' (as @ [n]) (tl ps)"
    and n: "n = (if ps = [] then brk w else hd ps)"
    and nv: "node_values (cells w') (as @ [n]) = node_values (cells w) as @ [v]"
    and so: "same_outside w w' (set (as @ ps))"
    and rest: "rb_thread_critical w' = rb_thread_critical w"
      "thread_status_of w' = thread_status_of w"
    by blast
  have "list_inv w' l' (set ((as @ [n]) @ tl ps)) (vs @ [v])"
    using wf' by (rule list_invI) (simp_all del: node_values_append add: nv vs)
  moreover have "\<forall>a \<in> set ((as @ [n]) @ tl ps). a \<in> N \<or> brk w \<le> a"
    using n N by (cases ps) auto
  ultimately show ?thesis using p so rest N
    unfolding list_step_def by blast
qed

lemma shift_list_inv:
  assumes "list_inv w l N vs"
  shows "\<exists>w' l' N'. shift_list w l = Some ((case vs of [] \<Rightarrow> Qundef | x # xs \<Rightarrow> x), w', l')
           \<and> list_inv w' l' N' (tl vs)
           \<and> list_step w w' N N'
           \<and> rb_thread_critical w' = rb_thread_critical w
           \<and> thread_status_of w' = thread_status_of w"
proof -
  from assms obtain as ps where wf: "wf_list w l as ps" and N: "N = set (as @ ps)"
    and vs: "vs = node_values (cells w) as"
    by (auto simp: list_inv_def)
  define ps' where "ps' = (if as \<noteq> [] \<and> USE_MEM_POOLS w then hd as # ps else ps)"
  from shift_list_wf[OF wf] obtain w' l' where
    p: "shift_list w l = Some ((case vs of [] \<Rightarrow> Qundef | x # xs \<Rightarrow> x), w', l')"
    and wf': "wf_list w' l' (tl as) ps'"
    and nv: "node_values (cells w') (tl as) = tl vs"
    and so: "same_outside w w' (set (as @ ps))"
    and rest: "rb_thread_critical w' = rb_thread_critical w"
      "thread_status_of w' = thread_status_of w"
    unfolding ps'_def vs by blast
  have "list_inv w' l' (set (tl as @ ps')) (tl vs)"
    using wf' by (rule list_invI) (simp_all add: nv)
  moreover have "\<forall>a \<in> set (tl as @ ps'). a \<in> N \<or> brk w \<le> a"
    using N by (cases as) (auto simp: ps'_def)
  ultimately show ?thesis using p so rest N
    unfolding list_step_def by blast
qed

lemma clear_list_inv:
  assumes "list_inv w l N vs"
  shows "\<exists>w' l' N'. clear_list w l = Some (w', l') \<and> list_inv w' l' N' []
           \<and> list_step w w' N N'
           \<and> rb_thread_critical w' = rb_thread_critical w
           \<and> thread_status_of w' = thread_status_of w"
proof -
  from assms obtain as ps where wf: "wf_list w l as ps" and N: "N = set (as @ ps)"
    by (auto simp: list_inv_def)
  define ps' where "ps' = (if USE_MEM_POOLS w then as @ ps else ps)"
  from clear_list_wf[OF wf] obtain w' l' where
    p: "clear_list w l = Some (w', l')"
    and wf': "wf_list w' l' [] ps'"
    and so: "same_outside w w' (set (as @ ps))"
    and rest: "rb_thread_critical w' = rb_thread_critical w"
      "thread_status_of w' = thread_status_of w"
    unfolding ps'_def by blast
  have "list_inv w' l' (set ([] @ ps')) []"
    using wf' by (rule list_invI) (simp_all add: node_values_def)
  moreover have "\<forall>a \<in> set ([] @ ps'). a \<in> N \<or> brk w \<le> a"
    using N by (auto simp: ps'_def)
  ultimately show ?thesis using p so rest N
    unfolding list_step_def by blast
qed

lemma reachable_list_inv: "reachable w l \<Longrightarrow> \<exists>as ps. wf_list w l as ps"
proof (induction rule: reachable.induct)
  case (init w)
  show ?case using wf_list_init by blast
next
  case (push w l v w' l')
  then obtain as ps where "wf_list w l as ps" by blast
  from push_list_wf[OF this, of v] push.hyps(2) show ?case by auto
next
  case (shift w l v w' l')
  then obtain as ps where "wf_list w l as ps" by blast
  from shift_list_wf[OF this] shift.hyps(2) show ?case by auto
next
  case (clear w l w' l')
  then obtain as ps where "wf_list w l as ps" by blast
  from clear_list_wf[OF this] clear.hyps(2) show ?case by auto
next
  case (pools w l v)
  then show ?case by simp
qed

lemma run_ops_fifo:
  "list_inv w l N vs \<Longrightarrow> run_ops w l oprs = Some (fifo_run vs oprs)"
proof (induction oprs arbitrary: w l N vs)
  case Nil
  show ?case by simp
next
  case (Cons opr oprs)
  have "\<exists>w' l' N'. list_op_step w l opr = Some (fst (fifo_step vs opr), w', l')
          \<and> list_inv w' l' N' (snd (fifo_step vs opr))"
  proof (cases opr)
    case (Push v)
    from push_list_inv[OF Cons.prems, of v] Push show ?thesis
      by (auto simp: list_op_step_def fifo_step_def)
  next
    case Shift
    from shift_list_inv[OF Cons.prems] Shift show ?thesis
      by (cases vs) (auto simp: list_op_step_def fifo_step_def)
  next
    case Clear
    from clear_list_inv[OF Cons.prems] Clear show ?thesis
      by (auto simp: list_op_step_def fifo_step_def)
  next
    case Size
    with Cons.prems list_inv_size[OF Cons.prems] show ?thesis
      by (auto simp: list_op_step_def fifo_step_def)
  next
    case ToSequence
    with Cons.prems list_inv_array[OF Cons.prems] show ?thesis
      by (auto simp: list_op_step_def fifo_step_def)
  qed
  then obtain w' l' N' where
    st: "list_op_step w l opr = Some (fst (fifo_step vs opr), w', l')"
    and inv: "list_inv w' l' N' (snd (fifo_step vs opr))"
    by blast
  from Cons.IH[OF inv] list_inv_array[OF inv] list_inv_size[OF inv] st
  show ?case by (simp add: split_beta Let_def)
qed

lemma push_world0: "push_list world0 init_list (Thread 1) = Some (world1, list1)"
  by (simp add: push_list_def world0_def world1_def init_list_def list1_def malloc_def
      store_def load_def)

lemma shift_world1: "shift_list world1 list1 = Some (Thread 1, world1, list1_shifted)"
  by (simp add: shift_list_def world0_def world1_def list1_def list1_shifted_def
      store_def load_def USE_MEM_POOLS_def)

lemma reachable_list1: "reachable world1 list1"
  using reachable.push[OF reachable.init push_world0] .

lemma reachable_list1_shifted: "reachable world1 list1_shifted"
  using reachable.shift[OF reachable_list1 shift_world1] .

lemma wf_list_length: "wf_list w l as ps \<Longrightarrow> length as \<le> brk w"
proof -
  assume wf: "wf_list w l as ps"
  then have "distinct as" and "set as \<subseteq> {..<brk w}"
    by (auto simp: wf_list_def)
  then have "length as = card (set as)" and "card (set as) \<le> card {..<brk w}"
    by (simp add: distinct_card, intro card_mono) simp_all
  then show ?thesis by simp
qed

text \<open>
  C2 (as amended: the statement on the pool is left out). In every list reachable from
  the empty list by push, shift and clear, the size field equals the number of entries
  of the live chain: as an \<^verbatim>\<open>unsigned long\<close> always, and as a number for every
  list of fewer than \<open>2 ^ 64\<close> entries. The entries are distinct nodes handed out by
  \<^verbatim>\<open>malloc\<close>, so there are no more of them than addresses handed out
  (\<open>length as \<le> brk w\<close>): on a machine whose addresses are 64 bits wide every list has
  fewer than \<open>2 ^ 64\<close> entries. Moreover \<open>array_from_list\<close> returns the values of the
  live chain, and no pooled node is on the live chain.
\<close>

theorem reachable_list_invariant:
  assumes "reachable w l"
  shows "\<exists>as ps. wf_list w l as ps
           \<and> chain (cells w) (entries l) as
           \<and> list_size l = word_of_nat (length as)
           \<and> (length as < 2 ^ 64 \<longrightarrow> unat (list_size l) = length as)
           \<and> length as \<le> brk w
           \<and> array_from_list w l = Some (Array (node_values (cells w) as))
           \<and> chain (cells w) (entry_pool l) ps
           \<and> set as \<inter> set ps = {}"
proof -
  from reachable_list_inv[OF assms] obtain as ps where wf: "wf_list w l as ps" by blast
  then have "chain (cells w) (entries l) as" and "chain (cells w) (entry_pool l) ps"
    and sz: "list_size l = word_of_nat (length as)" and "set as \<inter> set ps = {}"
    by (simp_all add: wf_list_def)
  moreover from sz have "length as < 2 ^ 64 \<longrightarrow> unat (list_size l) = length as"
    by (simp add: unat_of_nat)
  ultimately show ?thesis using wf array_from_list_wf[OF wf] wf_list_length[OF wf] by blast
qed

theorem reachable_list_invariant_witness:
  "reachable world1 list1
   \<and> chain (cells world1) (entries list1) [0]
   \<and> length [0::nat] < 2 ^ 64
   \<and> unat (list_size list1) = length [0::nat]
   \<and> array_from_list world1 list1 = Some (Array [Thread 1])"
proof -
  have c: "chain (cells world1) (entries list1) [0]"
    by (simp add: world1_def list1_def)
  from reachable_list_invariant[OF reachable_list1] obtain as where
    "chain (cells world1) (entries list1) as"
    and sz: "length as < 2 ^ 64 \<longrightarrow> unat (list_size list1) = length as"
    and ar: "array_from_list world1 list1 = Some (Array (node_values (cells world1) as))"
    by blast
  with c have as: "as = [0]" by (simp only: chain_unique)
  have "node_values (cells world1) [0] = [Thread 1]"
    by (simp add: node_values_def world1_def)
  with sz ar c reachable_list1 show ?thesis unfolding as by simp
qed

text \<open>
  C2 as stated fails: push thread 1 on the empty list and shift it; the node is now in
  the pool and its value is still thread 1.
\<close>

theorem pooled_node_keeps_task_counterexample:
  "push_list world0 init_list (Thread 1) = Some (world1, list1)
   \<and> shift_list world1 list1 = Some (Thread 1, world1, list1_shifted)
   \<and> reachable world1 list1_shifted
   \<and> array_from_loop world1 (entry_pool list1_shifted) [] = Some [Thread 1]"
proof -
  have "array_from_loop world1 (entry_pool list1_shifted) [] = Some [Thread 1]"
    by (subst array_from_loop.simps, simp add: load_def world1_def list1_shifted_def,
        subst array_from_loop.simps, simp)
  with push_world0 shift_world1 reachable_list1_shifted show ?thesis by simp
qed

text \<open>
  C7. Any program of list operations, run from the empty list with pooling on
  (\<^verbatim>\<open>avoid_mem_pools\<close> nil) and with pooling off (\<^verbatim>\<open>avoid_mem_pools\<close> true), gives
  the same observations, step by step; both are those of the plain FIFO sequence.
\<close>

theorem pooling_not_observable:
  "run_ops (w\<lparr>avoid_mem_pools := Qnil\<rparr>) init_list oprs
     = run_ops (w\<lparr>avoid_mem_pools := Qtrue\<rparr>) init_list oprs
   \<and> run_ops (w\<lparr>avoid_mem_pools := Qnil\<rparr>) init_list oprs = Some (fifo_run [] oprs)"
  using run_ops_fifo[OF list_inv_init, of "w\<lparr>avoid_mem_pools := Qnil\<rparr>" oprs]
    run_ops_fifo[OF list_inv_init, of "w\<lparr>avoid_mem_pools := Qtrue\<rparr>" oprs]
  by simp

theorem pooling_not_observable_witness:
  "run_ops (world0\<lparr>avoid_mem_pools := Qnil\<rparr>) init_list
       [Push (Thread 1), Push (Thread 2), Shift, Size, Clear, Shift, ToSequence]
     = run_ops (world0\<lparr>avoid_mem_pools := Qtrue\<rparr>) init_list
       [Push (Thread 1), Push (Thread 2), Shift, Size, Clear, Shift, ToSequence]
   \<and> run_ops (world0\<lparr>avoid_mem_pools := Qnil\<rparr>) init_list
       [Push (Thread 1), Push (Thread 2), Shift, Size, Clear, Shift, ToSequence]
     = Some [(Qnil, Array [Thread 1], 1), (Qnil, Array [Thread 1, Thread 2], 2),
             (Thread 1, Array [Thread 2], 1), (Integer 1, Array [Thread 2], 1),
             (Qnil, Array [], 0), (Qundef, Array [], 0), (Array [], Array [], 0)]"
proof -
  have run: "fifo_run [] [Push (Thread 1), Push (Thread 2), Shift, Size, Clear, Shift, ToSequence]
      = [(Qnil, Array [Thread 1], 1), (Qnil, Array [Thread 1, Thread 2], 2),
         (Thread 1, Array [Thread 2], 1), (Integer 1, Array [Thread 2], 1),
         (Qnil, Array [], 0), (Qundef, Array [], 0), (Array [], Array [], 0)]"
    by (simp add: fifo_step_def)
  from pooling_not_observable[of world0
      "[Push (Thread 1), Push (Thread 2), Shift, Size, Clear, Shift, ToSequence]"]
  show ?thesis unfolding run .
qed

section \<open>Mutex: try_lock\<close>

text \<open>
  C9. \<open>rb_mutex_try_lock\<close> always returns (it never stops the thread); it returns
  \<^verbatim>\<open>Qtrue\<close> if and only if the mutex had no owner; after \<^verbatim>\<open>Qtrue\<close> the owner is the
  calling thread, after \<^verbatim>\<open>Qfalse\<close> the owner is what it was. The waiting list is not
  touched.
\<close>

theorem rb_mutex_try_lock_spec:
  "(let (r, w', m') = rb_mutex_try_lock w m in
      (r = Return Qtrue \<or> r = Return Qfalse)
    \<and> ((r = Return Qtrue) = (\<not> RTEST (owner m)))
    \<and> owner m' = (if r = Return Qtrue then curr_thread w else owner m)
    \<and> Mutex.waiting m' = Mutex.waiting m
    \<and> w' = w\<lparr>rb_thread_critical := 0\<rparr>)"
  by (simp add: rb_mutex_try_lock_def Let_def)

section \<open>ConditionVariable: the two early exits of wait\<close>

text \<open>
  C3. When the mutex has no owner, \<open>wait_condvar\<close> returns at once: the thread is not
  put on the waiting list and is not stopped, and the condition variable, the mutex and
  the memory are what they were (only \<^verbatim>\<open>rb_thread_critical\<close> is reset).
\<close>

theorem wait_condvar_unowned:
  assumes "\<not> RTEST (owner m)"
  shows "wait_condvar w condvar m
           = Some (Return (), w\<lparr>rb_thread_critical := 0\<rparr>, condvar, m)"
  using assms by (simp add: wait_condvar_def Let_def)

theorem wait_condvar_unowned_witness:
  "\<not> RTEST (owner init_mutex)
   \<and> wait_condvar world0 init_condvar init_mutex
       = Some (Return (), world0\<lparr>rb_thread_critical := 0\<rparr>, init_condvar, init_mutex)"
proof -
  have free: "\<not> RTEST (owner init_mutex)"
    by (simp add: init_mutex_def)
  from wait_condvar_unowned [OF free, of world0 init_condvar] free show ?thesis
    by simp
qed

text \<open>
  C4. \<open>wait_condvar\<close> raises exactly when the mutex has an owner and the owner is not
  the calling thread; the exception is ThreadError "Not owner"; the condition variable,
  the mutex and the memory are then what they were, and the thread has not been
  stopped.
\<close>

theorem wait_condvar_not_owner:
  "((\<exists>e msg s. wait_condvar w condvar m = Some (Raise e msg, s))
      = (RTEST (owner m) \<and> owner m \<noteq> curr_thread w))
   \<and> (RTEST (owner m) \<and> owner m \<noteq> curr_thread w \<longrightarrow>
        wait_condvar w condvar m
          = Some (Raise eThreadError ''Not owner'', w\<lparr>rb_thread_critical := 0\<rparr>,
                  condvar, m))"
  by (auto simp: wait_condvar_def Let_def split: option.splits prod.splits
           simp: bind_eq_Some_conv)

theorem wait_condvar_not_owner_witness:
  "(RTEST (owner (init_mutex\<lparr>owner := Thread 2\<rparr>))
      \<and> owner (init_mutex\<lparr>owner := Thread 2\<rparr>) \<noteq> curr_thread world0)
   \<and> wait_condvar world0 init_condvar (init_mutex\<lparr>owner := Thread 2\<rparr>)
       = Some (Raise eThreadError ''Not owner'', world0\<lparr>rb_thread_critical := 0\<rparr>,
               init_condvar, init_mutex\<lparr>owner := Thread 2\<rparr>)"
proof -
  have other: "RTEST (owner (init_mutex\<lparr>owner := Thread 2\<rparr>))
      \<and> owner (init_mutex\<lparr>owner := Thread 2\<rparr>) \<noteq> curr_thread world0"
    by (simp add: world0_def)
  from wait_condvar_not_owner [of world0 init_condvar "init_mutex\<lparr>owner := Thread 2\<rparr>"] other
  show ?thesis by blast
qed

section \<open>The queue operations on the outside view\<close>

lemma same_outside_critical [simp]:
  "same_outside (w\<lparr>rb_thread_critical := v\<rparr>) w' N = same_outside w w' N"
  "same_outside w (w'\<lparr>rb_thread_critical := v\<rparr>) N = same_outside w w' N"
  by (simp_all add: same_outside_def)

lemma same_outside_status [simp]:
  "same_outside (w\<lparr>thread_status_of := s\<rparr>) w' N = same_outside w w' N"
  "same_outside w (w'\<lparr>thread_status_of := s\<rparr>) N = same_outside w w' N"
  by (simp_all add: same_outside_def)

lemma list_inv_critical [simp]:
  "list_inv (w\<lparr>rb_thread_critical := v\<rparr>) l N vs = list_inv w l N vs"
  by (simp add: list_inv_def)

lemma list_inv_status [simp]:
  "list_inv (w\<lparr>thread_status_of := s\<rparr>) l N vs = list_inv w l N vs"
  by (simp add: list_inv_def)

lemma list_step_critical [simp]:
  "list_step (w\<lparr>rb_thread_critical := v\<rparr>) w' N N' = list_step w w' N N'"
  "list_step w (w'\<lparr>rb_thread_critical := v\<rparr>) N N' = list_step w w' N N'"
  by (simp_all add: list_step_def)

lemma list_step_status [simp]:
  "list_step (w\<lparr>thread_status_of := s\<rparr>) w' N N' = list_step w w' N N'"
  "list_step w (w'\<lparr>thread_status_of := s\<rparr>) N N' = list_step w w' N N'"
  by (simp_all add: list_step_def)

lemma list_step_refl: "list_step w w N N"
  by (simp add: list_step_def same_outside_def)

lemma list_step_trans:
  assumes "list_step w w1 N N1" "list_step w1 w2 N1 N2"
  shows "list_step w w2 N N2"
proof -
  from assms have b: "brk w \<le> brk w1" "brk w1 \<le> brk w2"
    by (auto simp: list_step_def same_outside_def)
  have "\<And>a. a < brk w \<Longrightarrow> a \<notin> N \<Longrightarrow> cells w2 a = cells w a"
  proof -
    fix a assume a: "a < brk w" "a \<notin> N"
    with assms(1) have "a \<notin> N1" by (auto simp: list_step_def)
    moreover from a b have "a < brk w1" by simp
    ultimately have "cells w2 a = cells w1 a"
      using assms(2) by (auto simp: list_step_def same_outside_def)
    moreover from a assms(1) have "cells w1 a = cells w a"
      by (auto simp: list_step_def same_outside_def)
    ultimately show "cells w2 a = cells w a" by simp
  qed
  moreover have "\<And>a. a \<in> N2 \<Longrightarrow> a \<in> N \<or> brk w \<le> a"
  proof -
    fix a assume "a \<in> N2"
    with assms(2) have "a \<in> N1 \<or> brk w1 \<le> a" by (auto simp: list_step_def)
    with assms(1) b show "a \<in> N \<or> brk w \<le> a" by (auto simp: list_step_def)
  qed
  ultimately show ?thesis using assms b
    by (auto simp: list_step_def same_outside_def)
qed

lemma list_inv_frame:
  assumes "list_inv w l M vs" "list_step w w' N N'" "M \<inter> N = {}"
  shows "list_inv w' l M vs \<and> M \<inter> N' = {}"
proof -
  from assms(1) obtain as ps where wf: "wf_list w l as ps" and M: "M = set (as @ ps)"
    and vs: "vs = node_values (cells w) as"
    by (auto simp: list_inv_def)
  from assms(2) have so: "same_outside w w' N" by (simp add: list_step_def)
  from assms(3) M have "set (as @ ps) \<inter> N = {}" by simp
  from wf_list_frame[OF wf so this] M vs have "list_inv w' l M vs"
    by (auto intro: list_invI)
  moreover have "M \<inter> N' = {}"
  proof (rule ccontr)
    assume "M \<inter> N' \<noteq> {}"
    then obtain a where a: "a \<in> M" "a \<in> N'" by auto
    from a(1) assms(1) have "a < brk w" by (rule list_inv_bound[rotated])
    with a assms(2,3) show False by (auto simp: list_step_def)
  qed
  ultimately show ?thesis by simp
qed

lemma wake_thread_eq:
  "wake_thread w t =
     (if thread_status_of w t = THREAD_KILLED then (Qnil, w)
      else (t, w\<lparr>thread_status_of := (thread_status_of w)(t := THREAD_RUNNABLE)\<rparr>))"
  by (simp add: wake_thread_def rb_thread_wakeup_def)

lemma run_thread_eq: "run_thread w t = wake_thread w t"
  by (simp add: run_thread_def wake_thread_def rb_thread_run_def)

lemma wake_one_loop_inv:
  assumes "list_inv w l N vs"
  shows "\<exists>w' l' N'. wake_one_loop w l waking
             = Some (fst (wake_spec (thread_status_of w) waking vs), w', l')
           \<and> list_inv w' l' N' (snd (snd (wake_spec (thread_status_of w) waking vs)))
           \<and> list_step w w' N N'
           \<and> thread_status_of w' = fst (snd (wake_spec (thread_status_of w) waking vs))
           \<and> rb_thread_critical w' = rb_thread_critical w"
  using assms
proof (induction vs arbitrary: w l N waking)
  case Nil
  then have "entries l = None" by (simp add: list_inv_entries)
  with Nil show ?case
    by (subst wake_one_loop.simps) (auto simp: list_step_refl)
next
  case (Cons t ts)
  then have ne: "entries l \<noteq> None" by (simp add: list_inv_entries)
  show ?case
  proof (cases "RTEST waking")
    case True
    with Cons.prems show ?thesis
      by (subst wake_one_loop.simps) (auto simp: list_step_refl)
  next
    case False
    from shift_list_inv[OF Cons.prems] obtain w1 l1 N1 where
      sh: "shift_list w l = Some (t, w1, l1)" and inv1: "list_inv w1 l1 N1 ts"
      and st1: "list_step w w1 N N1" and c1: "rb_thread_critical w1 = rb_thread_critical w"
      and s1: "thread_status_of w1 = thread_status_of w"
      by auto
    define wk where "wk = fst (wake_thread w1 t)"
    define w2 where "w2 = snd (wake_thread w1 t)"
    have wt: "wake_thread w1 t = (wk, w2)" by (simp add: wk_def w2_def)
    have inv2: "list_inv w2 l1 N1 ts"
      using inv1 by (simp add: w2_def wake_thread_eq)
    have st2: "list_step w w2 N N1"
      using st1 by (simp add: w2_def wake_thread_eq)
    have c2: "rb_thread_critical w2 = rb_thread_critical w"
      using c1 by (simp add: w2_def wake_thread_eq)
    have spec: "wake_spec (thread_status_of w) waking (t # ts)
        = wake_spec (thread_status_of w2) wk ts"
      using False s1 by (simp add: wk_def w2_def wake_thread_eq)
    from Cons.IH[OF inv2, of wk] obtain w' l' N' where
      r: "wake_one_loop w2 l1 wk = Some (fst (wake_spec (thread_status_of w2) wk ts), w', l')"
      and inv': "list_inv w' l' N' (snd (snd (wake_spec (thread_status_of w2) wk ts)))"
      and st': "list_step w2 w' N1 N'"
      and s': "thread_status_of w' = fst (snd (wake_spec (thread_status_of w2) wk ts))"
      and c': "rb_thread_critical w' = rb_thread_critical w2"
      by blast
    have "wake_one_loop w l waking = wake_one_loop w2 l1 wk"
      using ne False sh wt by (subst wake_one_loop.simps) simp
    with r inv' s' c' c2 list_step_trans[OF st2 st'] show ?thesis
      unfolding spec by auto
  qed
qed

lemma wake_spec_runnable:
  "\<not> RTEST waking \<Longrightarrow> RTEST (fst (wake_spec st waking vs))
     \<Longrightarrow> fst (snd (wake_spec st waking vs)) (fst (wake_spec st waking vs)) = THREAD_RUNNABLE"
proof (induction vs arbitrary: st waking)
  case Nil then show ?case by simp
next
  case (Cons t ts)
  show ?case
  proof (cases "st t = THREAD_KILLED")
    case True
    with Cons.prems have eq: "wake_spec st waking (t # ts) = wake_spec st Qnil ts" by simp
    from Cons.prems(2) have "RTEST (fst (wake_spec st Qnil ts))" unfolding eq .
    then have "fst (snd (wake_spec st Qnil ts)) (fst (wake_spec st Qnil ts)) = THREAD_RUNNABLE"
      by (intro Cons.IH) simp_all
    then show ?thesis unfolding eq .
  next
    case False
    define st' where "st' = st(t := THREAD_RUNNABLE)"
    from False Cons.prems have eq: "wake_spec st waking (t # ts) = wake_spec st' t ts"
      by (simp add: st'_def)
    show ?thesis
    proof (cases "RTEST t")
      case True
      then have "wake_spec st' t ts = (t, st', ts)" by (cases ts) simp_all
      then show ?thesis unfolding eq by (simp add: st'_def)
    next
      case Ft: False
      from Cons.prems(2) have "RTEST (fst (wake_spec st' t ts))" unfolding eq .
      with Ft have "fst (snd (wake_spec st' t ts)) (fst (wake_spec st' t ts)) = THREAD_RUNNABLE"
        by (intro Cons.IH)
      then show ?thesis unfolding eq .
    qed
  qed
qed

lemma signal_condvar_inv:
  assumes "list_inv w (ConditionVariable.waiting cv) N vs"
  shows "\<exists>w' cv' N'. signal_condvar w cv = Some (w', cv')
           \<and> list_inv w' (ConditionVariable.waiting cv') N'
                (snd (snd (wake_spec (thread_status_of w) Qnil vs)))
           \<and> list_step w w' N N'
           \<and> thread_status_of w' = fst (snd (wake_spec (thread_status_of w) Qnil vs))
           \<and> rb_thread_critical w' = 0"
proof -
  define R where "R = wake_spec (thread_status_of w) Qnil vs"
  have inv1: "list_inv (w\<lparr>rb_thread_critical := 1\<rparr>) (ConditionVariable.waiting cv) N vs"
    using assms by simp
  from wake_one_loop_inv[OF inv1, of Qnil] obtain w2 l N' where
    wo: "wake_one (w\<lparr>rb_thread_critical := 1\<rparr>) (ConditionVariable.waiting cv)
           = Some (fst R, w2, l)"
    and inv2: "list_inv w2 l N' (snd (snd R))"
    and st2: "list_step w w2 N N'"
    and s2: "thread_status_of w2 = fst (snd R)"
    by (auto simp: wake_one_def R_def)
  define w4 where "w4 = (if RTEST (fst R) then snd (run_thread (set_critical w2 0) (fst R))
                          else set_critical w2 0)"
  have run: "RTEST (fst R) \<Longrightarrow> fst (snd R) (fst R) = THREAD_RUNNABLE"
    unfolding R_def by (rule wake_spec_runnable) simp_all
  have w4: "w4 = w2\<lparr>rb_thread_critical := 0\<rparr>"
  proof (cases "RTEST (fst R)")
    case True
    from run[OF True] s2 have "(thread_status_of w2)(fst R := THREAD_RUNNABLE) = thread_status_of w2"
      by (auto simp: fun_eq_iff)
    with True run[OF True] s2 show ?thesis
      by (simp add: w4_def run_thread_eq wake_thread_eq set_critical_def)
  next
    case False
    then show ?thesis by (simp add: w4_def set_critical_def)
  qed
  have "signal_condvar w cv = Some (w4, cv\<lparr>ConditionVariable.waiting := l\<rparr>)"
    using wo by (simp add: signal_condvar_def w4_def Let_def)
  with inv2 st2 s2 w4 show ?thesis
    unfolding R_def by (intro exI[of _ w4] exI[of _ "cv\<lparr>ConditionVariable.waiting := l\<rparr>"] exI[of _ N']) simp
qed

lemma lock_mutex_free:
  "\<not> RTEST (owner m) \<Longrightarrow>
     lock_mutex w m = Some (Return (), w\<lparr>rb_thread_critical := 0\<rparr>, m\<lparr>owner := curr_thread w\<rparr>)"
  by (simp add: lock_mutex_def Let_def)

lemma lock_mutex_held:
  assumes "RTEST (owner m)" "list_inv w (Mutex.waiting m) N vs"
  shows "\<exists>w' l' N'. lock_mutex w m = Some (Stop, w', m\<lparr>Mutex.waiting := l'\<rparr>)
           \<and> list_inv w' l' N' (vs @ [curr_thread w])
           \<and> list_step w w' N N'
           \<and> thread_status_of w' = (thread_status_of w)(curr_thread w := THREAD_STOPPED)
           \<and> rb_thread_critical w' = 0"
proof -
  have inv1: "list_inv (w\<lparr>rb_thread_critical := 1\<rparr>) (Mutex.waiting m) N vs"
    using assms by simp
  from push_list_inv[OF inv1, of "curr_thread w"] obtain w2 l' N' where
    p: "push_list (w\<lparr>rb_thread_critical := 1\<rparr>) (Mutex.waiting m) (curr_thread w) = Some (w2, l')"
    and inv2: "list_inv w2 l' N' (vs @ [curr_thread w])"
    and st2: "list_step w w2 N N'"
    and s2: "thread_status_of w2 = thread_status_of w"
    by auto
  from st2 have cur: "curr_thread w2 = curr_thread w"
    by (simp add: list_step_def same_outside_def)
  have "lock_mutex w m = Some (Stop, rb_thread_stop w2, m\<lparr>Mutex.waiting := l'\<rparr>)"
    using assms(1) p by (simp add: lock_mutex_def Let_def)
  with inv2 st2 s2 cur show ?thesis
    by (intro exI[of _ "rb_thread_stop w2"] exI[of _ l'] exI[of _ N'])
       (simp add: rb_thread_stop_def)
qed

lemma unlock_mutex_unowned:
  "\<not> RTEST (owner m) \<Longrightarrow> unlock_mutex w m = Some (Qfalse, w\<lparr>rb_thread_critical := 0\<rparr>, m)"
  by (simp add: unlock_mutex_def unlock_mutex_inner_def set_critical_def Let_def)

lemma unlock_mutex_owned:
  assumes "RTEST (owner m)" "list_inv w (Mutex.waiting m) N vs"
  shows "\<exists>w' l' N'. unlock_mutex w m
             = Some ((if fst (wake_spec (thread_status_of w) Qnil vs) = Qundef then Qfalse else Qtrue),
                     w', m\<lparr>owner := Qnil, Mutex.waiting := l'\<rparr>)
           \<and> list_inv w' l' N' (snd (snd (wake_spec (thread_status_of w) Qnil vs)))
           \<and> list_step w w' N N'
           \<and> thread_status_of w' = fst (snd (wake_spec (thread_status_of w) Qnil vs))
           \<and> rb_thread_critical w' = 0"
proof -
  define R where "R = wake_spec (thread_status_of w) Qnil vs"
  have inv1: "list_inv (w\<lparr>rb_thread_critical := 1\<rparr>) (Mutex.waiting m) N vs"
    using assms by simp
  from wake_one_loop_inv[OF inv1, of Qnil] obtain w2 l N' where
    wo: "wake_one (w\<lparr>rb_thread_critical := 1\<rparr>) (Mutex.waiting m) = Some (fst R, w2, l)"
    and inv2: "list_inv w2 l N' (snd (snd R))"
    and st2: "list_step w w2 N N'"
    and s2: "thread_status_of w2 = fst (snd R)"
    by (auto simp: wake_one_def R_def)
  define w4 where "w4 = (if fst R \<noteq> Qundef \<and> RTEST (fst R)
                          then snd (run_thread (set_critical w2 0) (fst R))
                          else set_critical w2 0)"
  have run: "RTEST (fst R) \<Longrightarrow> fst (snd R) (fst R) = THREAD_RUNNABLE"
    unfolding R_def by (rule wake_spec_runnable) simp_all
  have w4: "w4 = w2\<lparr>rb_thread_critical := 0\<rparr>"
  proof (cases "RTEST (fst R)")
    case True
    from run[OF True] s2 have "(thread_status_of w2)(fst R := THREAD_RUNNABLE) = thread_status_of w2"
      by (auto simp: fun_eq_iff)
    with True run[OF True] s2 show ?thesis
      by (simp add: w4_def run_thread_eq wake_thread_eq set_critical_def)
  next
    case False
    then show ?thesis by (simp add: w4_def set_critical_def)
  qed
  have "unlock_mutex w m = Some ((if fst R = Qundef then Qfalse else Qtrue), w4,
          m\<lparr>owner := Qnil, Mutex.waiting := l\<rparr>)"
    using wo assms(1)
    by (simp add: unlock_mutex_def unlock_mutex_inner_def w4_def Let_def)
  with inv2 st2 s2 w4 show ?thesis
    unfolding R_def by (intro exI[of _ w4] exI[of _ l] exI[of _ N']) simp
qed

lemma queue_inv_critical [simp]:
  "queue_inv (w\<lparr>rb_thread_critical := v\<rparr>) q A = queue_inv w q A"
  by (simp add: queue_inv_def)

lemma queue_inv_status [simp]:
  "queue_inv (w\<lparr>thread_status_of := s\<rparr>) q A = queue_inv w q A"
  by (simp add: queue_inv_def)

lemma list_step_curr: "list_step w w' N N' \<Longrightarrow> curr_thread w' = curr_thread w"
  by (simp add: list_step_def same_outside_def)

lemma queue_invI:
  assumes "owner (mutex q) = v_owner A" "capacity q = v_capacity A"
    and "list_inv w (Mutex.waiting (mutex q)) Nm (v_mutex_waiting A)"
    and "list_inv w (ConditionVariable.waiting (value_available q)) Nv (v_value_waiting A)"
    and "list_inv w (ConditionVariable.waiting (space_available q)) Ns (v_space_waiting A)"
    and "list_inv w (q_values q) Nq (v_values A)"
    and "Nm \<inter> Nv = {}" "Nm \<inter> Ns = {}" "Nm \<inter> Nq = {}"
      "Nv \<inter> Ns = {}" "Nv \<inter> Nq = {}" "Ns \<inter> Nq = {}"
  shows "queue_inv w q A"
  unfolding queue_inv_def using assms by blast

lemma queue_step_mutex:
  assumes qi: "queue_inv w q A"
    and opr: "\<And>N. list_inv w (Mutex.waiting (mutex q)) N (v_mutex_waiting A) \<Longrightarrow>
        \<exists>w' m' N'. P w' m' \<and> list_inv w' (Mutex.waiting m') N' vs' \<and> list_step w w' N N'"
  shows "\<exists>w' m'. P w' m'
           \<and> queue_inv w' (q\<lparr>mutex := m'\<rparr>) (A\<lparr>v_owner := owner m', v_mutex_waiting := vs'\<rparr>)
           \<and> curr_thread w' = curr_thread w"
proof -
  from qi obtain Nm Nv Ns Nq where
    m: "list_inv w (Mutex.waiting (mutex q)) Nm (v_mutex_waiting A)"
    and v: "list_inv w (ConditionVariable.waiting (value_available q)) Nv (v_value_waiting A)"
    and s: "list_inv w (ConditionVariable.waiting (space_available q)) Ns (v_space_waiting A)"
    and l: "list_inv w (q_values q) Nq (v_values A)"
    and d: "Nm \<inter> Nv = {}" "Nm \<inter> Ns = {}" "Nm \<inter> Nq = {}"
      "Nv \<inter> Ns = {}" "Nv \<inter> Nq = {}" "Ns \<inter> Nq = {}"
    and c: "capacity q = v_capacity A"
    unfolding queue_inv_def by blast
  from opr[OF m] obtain w' m' N' where p: "P w' m'"
    and m': "list_inv w' (Mutex.waiting m') N' vs'" and st: "list_step w w' Nm N'"
    by blast
  from d have "Nv \<inter> Nm = {}" "Ns \<inter> Nm = {}" "Nq \<inter> Nm = {}" by auto
  from list_inv_frame[OF v st this(1)] list_inv_frame[OF s st this(2)]
    list_inv_frame[OF l st this(3)]
  have "list_inv w' (ConditionVariable.waiting (value_available q)) Nv (v_value_waiting A)"
    "list_inv w' (ConditionVariable.waiting (space_available q)) Ns (v_space_waiting A)"
    "list_inv w' (q_values q) Nq (v_values A)"
    "N' \<inter> Nv = {}" "N' \<inter> Ns = {}" "N' \<inter> Nq = {}"
    by auto
  with m' d c have "queue_inv w' (q\<lparr>mutex := m'\<rparr>) (A\<lparr>v_owner := owner m', v_mutex_waiting := vs'\<rparr>)"
    by (intro queue_invI[where Nm=N' and Nv=Nv and Ns=Ns and Nq=Nq]) simp_all
  with p list_step_curr[OF st] show ?thesis by blast
qed


lemma queue_step_space:
  assumes qi: "queue_inv w q A"
    and opr: "\<And>N. list_inv w (ConditionVariable.waiting (space_available q)) N (v_space_waiting A) \<Longrightarrow>
        \<exists>w' cv' N'. P w' cv' \<and> list_inv w' (ConditionVariable.waiting cv') N' vs' \<and> list_step w w' N N'"
  shows "\<exists>w' cv'. P w' cv'
           \<and> queue_inv w' (q\<lparr>space_available := cv'\<rparr>) (A\<lparr>v_space_waiting := vs'\<rparr>)
           \<and> curr_thread w' = curr_thread w"
proof -
  from qi obtain Nm Nv Ns Nq where
    m: "list_inv w (Mutex.waiting (mutex q)) Nm (v_mutex_waiting A)"
    and v: "list_inv w (ConditionVariable.waiting (value_available q)) Nv (v_value_waiting A)"
    and s: "list_inv w (ConditionVariable.waiting (space_available q)) Ns (v_space_waiting A)"
    and l: "list_inv w (q_values q) Nq (v_values A)"
    and d: "Nm \<inter> Nv = {}" "Nm \<inter> Ns = {}" "Nm \<inter> Nq = {}"
      "Nv \<inter> Ns = {}" "Nv \<inter> Nq = {}" "Ns \<inter> Nq = {}"
    and c: "capacity q = v_capacity A" "owner (mutex q) = v_owner A"
    unfolding queue_inv_def by blast
  from opr[OF s] obtain w' cv' N' where p: "P w' cv'"
    and s': "list_inv w' (ConditionVariable.waiting cv') N' vs'" and st: "list_step w w' Ns N'"
    by blast
  from d have "Nq \<inter> Ns = {}" by auto
  from list_inv_frame[OF m st d(2)] list_inv_frame[OF v st d(4)]
    list_inv_frame[OF l st this]
  have "list_inv w' (Mutex.waiting (mutex q)) Nm (v_mutex_waiting A)"
    "list_inv w' (ConditionVariable.waiting (value_available q)) Nv (v_value_waiting A)"
    "list_inv w' (q_values q) Nq (v_values A)"
    "Nm \<inter> N' = {}" "Nv \<inter> N' = {}" "N' \<inter> Nq = {}"
    by auto
  with s' d c have "queue_inv w' (q\<lparr>space_available := cv'\<rparr>) (A\<lparr>v_space_waiting := vs'\<rparr>)"
    by (intro queue_invI[where Nm=Nm and Nv=Nv and Ns=N' and Nq=Nq]) simp_all
  with p list_step_curr[OF st] show ?thesis by blast
qed

lemma queue_step_values:
  assumes qi: "queue_inv w q A"
    and opr: "\<And>N. list_inv w (q_values q) N (v_values A) \<Longrightarrow>
        \<exists>w' l' N'. P w' l' \<and> list_inv w' l' N' vs' \<and> list_step w w' N N'"
  shows "\<exists>w' l'. P w' l'
           \<and> queue_inv w' (q\<lparr>q_values := l'\<rparr>) (A\<lparr>v_values := vs'\<rparr>)
           \<and> curr_thread w' = curr_thread w"
proof -
  from qi obtain Nm Nv Ns Nq where
    m: "list_inv w (Mutex.waiting (mutex q)) Nm (v_mutex_waiting A)"
    and v: "list_inv w (ConditionVariable.waiting (value_available q)) Nv (v_value_waiting A)"
    and s: "list_inv w (ConditionVariable.waiting (space_available q)) Ns (v_space_waiting A)"
    and l: "list_inv w (q_values q) Nq (v_values A)"
    and d: "Nm \<inter> Nv = {}" "Nm \<inter> Ns = {}" "Nm \<inter> Nq = {}"
      "Nv \<inter> Ns = {}" "Nv \<inter> Nq = {}" "Ns \<inter> Nq = {}"
    and c: "capacity q = v_capacity A" "owner (mutex q) = v_owner A"
    unfolding queue_inv_def by blast
  from opr[OF l] obtain w' l' N' where p: "P w' l'"
    and l': "list_inv w' l' N' vs'" and st: "list_step w w' Nq N'"
    by blast
  from list_inv_frame[OF m st d(3)] list_inv_frame[OF v st d(5)]
    list_inv_frame[OF s st d(6)]
  have "list_inv w' (Mutex.waiting (mutex q)) Nm (v_mutex_waiting A)"
    "list_inv w' (ConditionVariable.waiting (value_available q)) Nv (v_value_waiting A)"
    "list_inv w' (ConditionVariable.waiting (space_available q)) Ns (v_space_waiting A)"
    "Nm \<inter> N' = {}" "Nv \<inter> N' = {}" "Ns \<inter> N' = {}"
    by auto
  with l' d c have "queue_inv w' (q\<lparr>q_values := l'\<rparr>) (A\<lparr>v_values := vs'\<rparr>)"
    by (intro queue_invI[where Nm=Nm and Nv=Nv and Ns=Ns and Nq=N']) simp_all
  with p list_step_curr[OF st] show ?thesis by blast
qed

lemma wake_spec_first: "list_all RTEST vs \<Longrightarrow> wake_spec st Qnil vs = wake_first st vs"
proof (induction vs)
  case Nil
  show ?case by (simp add: wake_first_def)
next
  case (Cons t ts)
  show ?case
  proof (cases "st t = THREAD_KILLED")
    case True
    with Cons show ?thesis by (simp add: wake_first_def)
  next
    case False
    from Cons.prems have "RTEST t" by simp
    then have "wake_spec (st(t := THREAD_RUNNABLE)) t ts = (t, st(t := THREAD_RUNNABLE), ts)"
      by (cases ts) simp_all
    with False show ?thesis by (simp add: wake_first_def)
  qed
qed

lemma wake_first_list_all:
  "list_all P vs \<Longrightarrow> list_all P (snd (snd (wake_first st vs)))"
proof -
  assume a: "list_all P vs"
  have "set (snd (snd (wake_first st vs))) \<subseteq> set (dropWhile (\<lambda>t. st t = THREAD_KILLED) vs)"
    by (auto simp: wake_first_def split: list.splits)
  also have "\<dots> \<subseteq> set vs" by (auto dest: set_dropWhileD)
  finally show ?thesis using a by (auto simp: list_all_iff)
qed

lemma queue_sim_critical [simp]:
  "queue_sim (w\<lparr>rb_thread_critical := v\<rparr>) q X = queue_sim w q X"
  by (simp add: queue_sim_def)

lemma queue_inv_owner:
  "queue_inv w q A \<Longrightarrow> queue_inv w (q\<lparr>mutex := (mutex q)\<lparr>owner := t\<rparr>\<rparr>) (A\<lparr>v_owner := t\<rparr>)"
  by (simp add: queue_inv_def)

lemma queue_inv_capacity:
  "queue_inv w q A \<Longrightarrow> queue_inv w (q\<lparr>capacity := c\<rparr>) (A\<lparr>v_capacity := c\<rparr>)"
  by (simp add: queue_inv_def)

lemma queue_simD:
  assumes "queue_sim w q X"
  shows "queue_inv w q (fst X)" "thread_status_of w = snd X" "RTEST (curr_thread w)"
    "list_all RTEST (v_mutex_waiting (fst X))" "list_all RTEST (v_value_waiting (fst X))"
    "list_all RTEST (v_space_waiting (fst X))"
  using assms by (simp_all add: queue_sim_def)

lemma queue_simI:
  assumes "queue_inv w q A" "thread_status_of w = st" "RTEST (curr_thread w)"
    "list_all RTEST (v_mutex_waiting A)" "list_all RTEST (v_value_waiting A)"
    "list_all RTEST (v_space_waiting A)"
  shows "queue_sim w q (A, st)"
  using assms by (simp add: queue_sim_def)

lemma q_signal_space:
  assumes "queue_sim w q X"
  shows "\<exists>w' cv'. signal_condvar w (space_available q) = Some (w', cv')
           \<and> queue_sim w' (q\<lparr>space_available := cv'\<rparr>) (signal_space_view X)
           \<and> curr_thread w' = curr_thread w \<and> rb_thread_critical w' = 0"
proof -
  define R where "R = wake_first (snd X) (v_space_waiting (fst X))"
  note d = queue_simD[OF assms]
  from d(6) have ws: "wake_spec (snd X) Qnil (v_space_waiting (fst X)) = R"
    unfolding R_def by (rule wake_spec_first)
  have "\<exists>w' cv'. (signal_condvar w (space_available q) = Some (w', cv')
            \<and> thread_status_of w' = fst (snd R) \<and> rb_thread_critical w' = 0)
          \<and> queue_inv w' (q\<lparr>space_available := cv'\<rparr>) ((fst X)\<lparr>v_space_waiting := snd (snd R)\<rparr>)
          \<and> curr_thread w' = curr_thread w"
  proof (rule queue_step_space[OF d(1)])
    fix N assume "list_inv w (ConditionVariable.waiting (space_available q)) N (v_space_waiting (fst X))"
    from signal_condvar_inv[OF this] d(2) ws
    show "\<exists>w' cv' N'. (signal_condvar w (space_available q) = Some (w', cv')
            \<and> thread_status_of w' = fst (snd R) \<and> rb_thread_critical w' = 0)
          \<and> list_inv w' (ConditionVariable.waiting cv') N' (snd (snd R)) \<and> list_step w w' N N'"
      by auto
  qed
  then obtain w' cv' where r: "signal_condvar w (space_available q) = Some (w', cv')"
    "thread_status_of w' = fst (snd R)" "rb_thread_critical w' = 0"
    "queue_inv w' (q\<lparr>space_available := cv'\<rparr>) ((fst X)\<lparr>v_space_waiting := snd (snd R)\<rparr>)"
    "curr_thread w' = curr_thread w"
    by blast
  have sv: "signal_space_view X = ((fst X)\<lparr>v_space_waiting := snd (snd R)\<rparr>, fst (snd R))"
    by (simp add: signal_space_view_def R_def split_beta)
  have "list_all RTEST (snd (snd R))"
    unfolding R_def using d(6) by (rule wake_first_list_all)
  with r d have "queue_sim w' (q\<lparr>space_available := cv'\<rparr>) (signal_space_view X)"
    unfolding sv by (intro queue_simI) simp_all
  with r show ?thesis by blast
qed

lemma q_unlock:
  assumes "queue_sim w q X"
  shows "\<exists>r w' m'. unlock_mutex w (mutex q) = Some (r, w', m')
           \<and> queue_sim w' (q\<lparr>mutex := m'\<rparr>) (unlock_view X)
           \<and> curr_thread w' = curr_thread w \<and> rb_thread_critical w' = 0"
proof (cases "RTEST (v_owner (fst X))")
  case False
  note d = queue_simD[OF assms]
  from d(1) have "owner (mutex q) = v_owner (fst X)" by (simp add: queue_inv_def)
  with False have "unlock_mutex w (mutex q) = Some (Qfalse, w\<lparr>rb_thread_critical := 0\<rparr>, mutex q)"
    by (simp add: unlock_mutex_unowned)
  with False assms show ?thesis by (simp add: unlock_view_def)
next
  case True
  define R where "R = wake_first (snd X) (v_mutex_waiting (fst X))"
  note d = queue_simD[OF assms]
  from d(4) have ws: "wake_spec (snd X) Qnil (v_mutex_waiting (fst X)) = R"
    unfolding R_def by (rule wake_spec_first)
  from d(1) True have ow: "RTEST (owner (mutex q))" by (simp add: queue_inv_def)
  have "\<exists>w' m'. ((\<exists>r. unlock_mutex w (mutex q) = Some (r, w', m')) \<and> owner m' = Qnil
            \<and> thread_status_of w' = fst (snd R) \<and> rb_thread_critical w' = 0)
          \<and> queue_inv w' (q\<lparr>mutex := m'\<rparr>) ((fst X)\<lparr>v_owner := owner m', v_mutex_waiting := snd (snd R)\<rparr>)
          \<and> curr_thread w' = curr_thread w"
  proof (rule queue_step_mutex[OF d(1)])
    fix N assume "list_inv w (Mutex.waiting (mutex q)) N (v_mutex_waiting (fst X))"
    from unlock_mutex_owned[OF ow this] d(2) ws obtain w' l' N' r where
      "unlock_mutex w (mutex q) = Some (r, w', (mutex q)\<lparr>owner := Qnil, Mutex.waiting := l'\<rparr>)"
      "list_inv w' l' N' (snd (snd R))" "list_step w w' N N'"
      "thread_status_of w' = fst (snd R)" "rb_thread_critical w' = 0"
      by auto
    then show "\<exists>w' m' N'. ((\<exists>r. unlock_mutex w (mutex q) = Some (r, w', m')) \<and> owner m' = Qnil
            \<and> thread_status_of w' = fst (snd R) \<and> rb_thread_critical w' = 0)
          \<and> list_inv w' (Mutex.waiting m') N' (snd (snd R)) \<and> list_step w w' N N'"
      by (intro exI[of _ w'] exI[of _ "(mutex q)\<lparr>owner := Qnil, Mutex.waiting := l'\<rparr>"]
          exI[of _ N']) simp
  qed
  then obtain w' m' r where r: "unlock_mutex w (mutex q) = Some (r, w', m')" "owner m' = Qnil"
    "thread_status_of w' = fst (snd R)" "rb_thread_critical w' = 0"
    "queue_inv w' (q\<lparr>mutex := m'\<rparr>) ((fst X)\<lparr>v_owner := owner m', v_mutex_waiting := snd (snd R)\<rparr>)"
    "curr_thread w' = curr_thread w"
    by blast
  have uv: "unlock_view X = ((fst X)\<lparr>v_owner := Qnil, v_mutex_waiting := snd (snd R)\<rparr>, fst (snd R))"
    using True by (simp add: unlock_view_def R_def split_beta)
  have "list_all RTEST (snd (snd R))"
    unfolding R_def using d(4) by (rule wake_first_list_all)
  with r d have "queue_sim w' (q\<lparr>mutex := m'\<rparr>) (unlock_view X)"
    unfolding uv by (intro queue_simI) simp_all
  with r show ?thesis by blast
qed

lemma q_lock_free:
  assumes "queue_sim w q X" "\<not> RTEST (v_owner (fst X))"
  shows "lock_mutex w (mutex q)
           = Some (Return (), w\<lparr>rb_thread_critical := 0\<rparr>, (mutex q)\<lparr>owner := curr_thread w\<rparr>)
         \<and> queue_sim (w\<lparr>rb_thread_critical := 0\<rparr>) (q\<lparr>mutex := (mutex q)\<lparr>owner := curr_thread w\<rparr>\<rparr>)
             ((fst X)\<lparr>v_owner := curr_thread w\<rparr>, snd X)"
proof -
  note d = queue_simD[OF assms(1)]
  from d(1) have "owner (mutex q) = v_owner (fst X)" by (simp add: queue_inv_def)
  with assms(2) lock_mutex_free[of "mutex q" w] queue_inv_owner[OF d(1), of "curr_thread w"] d
  show ?thesis by (simp add: queue_sim_def)
qed

lemma q_lock_held:
  assumes "queue_sim w q X" "RTEST (v_owner (fst X))"
  shows "\<exists>w' m'. lock_mutex w (mutex q) = Some (Stop, w', m')
           \<and> queue_sim w' (q\<lparr>mutex := m'\<rparr>)
               ((fst X)\<lparr>v_mutex_waiting := v_mutex_waiting (fst X) @ [curr_thread w]\<rparr>,
                (snd X)(curr_thread w := THREAD_STOPPED))
           \<and> curr_thread w' = curr_thread w \<and> rb_thread_critical w' = 0"
proof -
  note d = queue_simD[OF assms(1)]
  from d(1) assms(2) have ow: "RTEST (owner (mutex q))" and oe: "owner (mutex q) = v_owner (fst X)"
    by (simp_all add: queue_inv_def)
  have "\<exists>w' m'. (lock_mutex w (mutex q) = Some (Stop, w', m') \<and> owner m' = owner (mutex q)
            \<and> thread_status_of w' = (thread_status_of w)(curr_thread w := THREAD_STOPPED)
            \<and> rb_thread_critical w' = 0)
          \<and> queue_inv w' (q\<lparr>mutex := m'\<rparr>)
              ((fst X)\<lparr>v_owner := owner m', v_mutex_waiting := v_mutex_waiting (fst X) @ [curr_thread w]\<rparr>)
          \<and> curr_thread w' = curr_thread w"
  proof (rule queue_step_mutex[OF d(1)])
    fix N assume "list_inv w (Mutex.waiting (mutex q)) N (v_mutex_waiting (fst X))"
    from lock_mutex_held[OF ow this] obtain w' l' N' where
      "lock_mutex w (mutex q) = Some (Stop, w', (mutex q)\<lparr>Mutex.waiting := l'\<rparr>)"
      "list_inv w' l' N' (v_mutex_waiting (fst X) @ [curr_thread w])" "list_step w w' N N'"
      "thread_status_of w' = (thread_status_of w)(curr_thread w := THREAD_STOPPED)"
      "rb_thread_critical w' = 0"
      by auto
    then show "\<exists>w' m' N'. (lock_mutex w (mutex q) = Some (Stop, w', m') \<and> owner m' = owner (mutex q)
            \<and> thread_status_of w' = (thread_status_of w)(curr_thread w := THREAD_STOPPED)
            \<and> rb_thread_critical w' = 0)
          \<and> list_inv w' (Mutex.waiting m') N' (v_mutex_waiting (fst X) @ [curr_thread w])
          \<and> list_step w w' N N'"
      by (intro exI[of _ w'] exI[of _ "(mutex q)\<lparr>Mutex.waiting := l'\<rparr>"] exI[of _ N']) simp
  qed
  then obtain w' m' where r: "lock_mutex w (mutex q) = Some (Stop, w', m')"
    "owner m' = owner (mutex q)"
    "thread_status_of w' = (thread_status_of w)(curr_thread w := THREAD_STOPPED)"
    "rb_thread_critical w' = 0"
    "queue_inv w' (q\<lparr>mutex := m'\<rparr>)
       ((fst X)\<lparr>v_owner := owner m', v_mutex_waiting := v_mutex_waiting (fst X) @ [curr_thread w]\<rparr>)"
    "curr_thread w' = curr_thread w"
    by blast
  from r(2) oe have "(fst X)\<lparr>v_owner := owner m', v_mutex_waiting := v_mutex_waiting (fst X) @ [curr_thread w]\<rparr>
      = (fst X)\<lparr>v_mutex_waiting := v_mutex_waiting (fst X) @ [curr_thread w]\<rparr>"
    by simp
  with r d have "queue_sim w' (q\<lparr>mutex := m'\<rparr>)
               ((fst X)\<lparr>v_mutex_waiting := v_mutex_waiting (fst X) @ [curr_thread w]\<rparr>,
                (snd X)(curr_thread w := THREAD_STOPPED))"
    by (intro queue_simI) simp_all
  with r show ?thesis by blast
qed

lemma q_values_step:
  assumes "queue_sim w q X"
    and "\<And>N. list_inv w (q_values q) N (v_values (fst X)) \<Longrightarrow>
        \<exists>w' l' N'. P w' l' \<and> list_inv w' l' N' vs' \<and> list_step w w' N N'
          \<and> rb_thread_critical w' = rb_thread_critical w
          \<and> thread_status_of w' = thread_status_of w"
  shows "\<exists>w' l'. P w' l'
           \<and> queue_sim w' (q\<lparr>q_values := l'\<rparr>) ((fst X)\<lparr>v_values := vs'\<rparr>, snd X)
           \<and> curr_thread w' = curr_thread w \<and> rb_thread_critical w' = rb_thread_critical w"
proof -
  note d = queue_simD[OF assms(1)]
  have "\<exists>w' l'. (P w' l'
            \<and> thread_status_of w' = thread_status_of w
            \<and> rb_thread_critical w' = rb_thread_critical w)
          \<and> queue_inv w' (q\<lparr>q_values := l'\<rparr>) ((fst X)\<lparr>v_values := vs'\<rparr>)
          \<and> curr_thread w' = curr_thread w"
  proof (rule queue_step_values[OF d(1)])
    fix N assume "list_inv w (q_values q) N (v_values (fst X))"
    from assms(2)[OF this]
    show "\<exists>w' l' N'. (P w' l'
            \<and> thread_status_of w' = thread_status_of w
            \<and> rb_thread_critical w' = rb_thread_critical w)
          \<and> list_inv w' l' N' vs' \<and> list_step w w' N N'"
      by blast
  qed
  then obtain w' l' where r: "P w' l'" "thread_status_of w' = thread_status_of w"
    "rb_thread_critical w' = rb_thread_critical w"
    "queue_inv w' (q\<lparr>q_values := l'\<rparr>) ((fst X)\<lparr>v_values := vs'\<rparr>)"
    "curr_thread w' = curr_thread w"
    by blast
  with d have "queue_sim w' (q\<lparr>q_values := l'\<rparr>) ((fst X)\<lparr>v_values := vs'\<rparr>, snd X)"
    by (intro queue_simI) simp_all
  with r show ?thesis by blast
qed

lemma q_clear_values:
  assumes "queue_sim w q X"
  shows "\<exists>w' l'. clear_list w (q_values q) = Some (w', l')
           \<and> queue_sim w' (q\<lparr>q_values := l'\<rparr>) ((fst X)\<lparr>v_values := []\<rparr>, snd X)
           \<and> curr_thread w' = curr_thread w \<and> rb_thread_critical w' = rb_thread_critical w"
  by (rule q_values_step[OF assms]) (rule clear_list_inv)


lemma view_fields [simp]:
  "v_values (fst (signal_space_view X)) = v_values (fst X)"
  "v_capacity (fst (signal_space_view X)) = v_capacity (fst X)"
  "v_owner (fst (signal_space_view X)) = v_owner (fst X)"
  "v_mutex_waiting (fst (signal_space_view X)) = v_mutex_waiting (fst X)"
  "v_value_waiting (fst (signal_space_view X)) = v_value_waiting (fst X)"
  "v_values (fst (unlock_view X)) = v_values (fst X)"
  "v_capacity (fst (unlock_view X)) = v_capacity (fst X)"
  "v_value_waiting (fst (unlock_view X)) = v_value_waiting (fst X)"
  "v_space_waiting (fst (unlock_view X)) = v_space_waiting (fst X)"
  by (simp_all add: signal_space_view_def unlock_view_def split_beta)

lemma view_fields_funpow [simp]:
  "v_values (fst ((signal_space_view ^^ k) X)) = v_values (fst X)"
  "v_capacity (fst ((signal_space_view ^^ k) X)) = v_capacity (fst X)"
  "v_owner (fst ((signal_space_view ^^ k) X)) = v_owner (fst X)"
  "v_mutex_waiting (fst ((signal_space_view ^^ k) X)) = v_mutex_waiting (fst X)"
  "v_value_waiting (fst ((signal_space_view ^^ k) X)) = v_value_waiting (fst X)"
  by (induction k) simp_all

lemma unlock_view_owner: "\<not> RTEST (v_owner (fst (unlock_view X)))"
  by (simp add: unlock_view_def split_beta)

lemma queue_sim_capacity: "queue_sim w q X \<Longrightarrow> capacity q = v_capacity (fst X)"
  by (simp add: queue_sim_def queue_inv_def)

lemma queue_sim_owner: "queue_sim w q X \<Longrightarrow> owner (mutex q) = v_owner (fst X)"
  by (simp add: queue_sim_def queue_inv_def)

lemma queue_sim_values:
  assumes "queue_sim w q X"
  shows "array_from_list w (q_values q) = Some (Array (v_values (fst X)))"
    and "list_size (q_values q) = word_of_nat (length (v_values (fst X)))"
    and "(entries (q_values q) = None) = (v_values (fst X) = [])"
proof -
  from assms obtain N where "list_inv w (q_values q) N (v_values (fst X))"
    unfolding queue_sim_def queue_inv_def by blast
  then show "array_from_list w (q_values q) = Some (Array (v_values (fst X)))"
    and "list_size (q_values q) = word_of_nat (length (v_values (fst X)))"
    and "(entries (q_values q) = None) = (v_values (fst X) = [])"
    by (simp_all add: list_inv_array list_inv_size list_inv_entries)
qed

lemma queue_sim_set_capacity:
  "queue_sim w q X \<Longrightarrow> queue_sim w (q\<lparr>capacity := c\<rparr>) ((fst X)\<lparr>v_capacity := c\<rparr>, snd X)"
  by (simp add: queue_sim_def queue_inv_capacity)

lemma q_signal_loop:
  "queue_sim w q X \<Longrightarrow>
     \<exists>w' cv'. signal_loop d w (space_available q) = Some (w', cv')
       \<and> queue_sim w' (q\<lparr>space_available := cv'\<rparr>) ((signal_space_view ^^ unat d) X)
       \<and> curr_thread w' = curr_thread w"
proof (induction "unat d" arbitrary: d w q X)
  case 0
  then have "d = 0" by (simp add: unat_eq_0)
  with "0.prems" show ?case by (subst signal_loop.simps) simp
next
  case (Suc k)
  from Suc.hyps(2) have pos: "0 < d" by (metis unat_gt_0 zero_less_Suc word_gt_0)
  from Suc.hyps(2) have k: "k = unat (d - 1)"
    by (metis diff_Suc_1 pos unat_minus_one word_neq_0_conv)
  from q_signal_space[OF Suc.prems] obtain w1 cv1 where
    s1: "signal_condvar w (space_available q) = Some (w1, cv1)"
    and sim1: "queue_sim w1 (q\<lparr>space_available := cv1\<rparr>) (signal_space_view X)"
    and c1: "curr_thread w1 = curr_thread w"
    by blast
  from Suc.hyps(1)[OF k sim1] obtain w' cv' where
    r: "signal_loop (d - 1) w1 cv1 = Some (w', cv')"
    and sim': "queue_sim w' (q\<lparr>space_available := cv'\<rparr>)
        ((signal_space_view ^^ unat (d - 1)) (signal_space_view X))"
    and c': "curr_thread w' = curr_thread w1"
    by auto
  have "signal_loop d w (space_available q) = Some (w', cv')"
    using pos s1 r by (subst signal_loop.simps) simp
  moreover have "(signal_space_view ^^ unat (d - 1)) (signal_space_view X)
      = (signal_space_view ^^ unat d) X"
  proof -
    from Suc.hyps(2) k have "unat d = Suc (unat (d - 1))" by simp
    then show ?thesis by (simp only: funpow_Suc_right o_apply)
  qed
  ultimately show ?case using sim' c' c1 by auto
qed

lemma q_lock_held':
  assumes "queue_sim w q X" "RTEST (v_owner (fst X))"
  shows "\<exists>w' m'. lock_mutex w (mutex q) = Some (Stop, w', m')
           \<and> queue_sim w' (q\<lparr>mutex := m'\<rparr>) (lock_wait_view (curr_thread w) X)"
  using q_lock_held[OF assms] unfolding lock_wait_view_def by blast

lemma word_one_le_not_less: "(1::64 word) \<le> n \<Longrightarrow> \<not> n < 1"
  by (simp add: word_le_nat_alt word_less_nat_alt)

lemma unat_sub_le: "(a::64 word) \<le> b \<Longrightarrow> unat (b - a) = unat b - unat a"
  by (simp add: unat_sub)











section \<open>The example queue\<close>

lemma ex_sim: "queue_sim ex_world (ex_queue c) (ex_view c, ex_status)"
proof (intro queue_simI queue_invI[where Nm="{}" and Nv="{}" and Ns="{2, 3, 4}" and Nq="{0}"])
  show "list_inv ex_world (ConditionVariable.waiting (space_available (ex_queue c))) {2, 3, 4}
      (v_space_waiting (ex_view c))"
    by (rule list_invI[where as="[2, 3, 4]" and ps="[]"])
       (simp_all add: wf_list_def ex_world_def ex_queue_def ex_view_def node_values_def)
  show "list_inv ex_world (q_values (ex_queue c)) {0} (v_values (ex_view c))"
    by (rule list_invI[where as="[0]" and ps="[]"])
       (simp_all add: wf_list_def ex_world_def ex_queue_def ex_view_def node_values_def)
qed (simp_all add: ex_queue_def ex_view_def ex_world_def init_mutex_def init_condvar_def
       list_inv_init)

lemma wake_one_empty: "entries l = None \<Longrightarrow> wake_one w l = Some (Qnil, w, l)"
  unfolding wake_one_def by (subst wake_one_loop.simps) simp

lemma ex_unlock:
  "unlock_mutex (ex_world) (init_mutex\<lparr>owner := Thread 4\<rparr>) = Some (Qtrue, ex_world, init_mutex)"
  by (simp add: unlock_mutex_def unlock_mutex_inner_def wake_one_empty init_mutex_def
      init_list_def set_critical_def ex_world_def)

lemma ex_signal_view:
  "signal_space_view (ex_view c, ex_status)
     = ((ex_view c)\<lparr>v_space_waiting := [Thread 6, Thread 8]\<rparr>,
        ex_status(Thread 5 := THREAD_RUNNABLE))"
  by (simp add: signal_space_view_def wake_first_def ex_view_def ex_status_def)

lemma ex_sim_empty:
  "queue_sim ex_world ((ex_queue c)\<lparr>q_values := init_list\<rparr>) ((ex_view c)\<lparr>v_values := []\<rparr>, ex_status)"
proof (intro queue_simI queue_invI[where Nm="{}" and Nv="{}" and Ns="{2, 3, 4}" and Nq="{}"])
  show "list_inv ex_world
      (ConditionVariable.waiting (space_available ((ex_queue c)\<lparr>q_values := init_list\<rparr>))) {2, 3, 4}
      (v_space_waiting ((ex_view c)\<lparr>v_values := []\<rparr>))"
    by (rule list_invI[where as="[2, 3, 4]" and ps="[]"])
       (simp_all add: wf_list_def ex_world_def ex_queue_def ex_view_def node_values_def)
qed (simp_all add: ex_queue_def ex_view_def ex_world_def init_mutex_def init_condvar_def
       list_inv_init)

lemma ex_clear_view:
  "clear_view (Thread 4) (ex_view 1, ex_status)
     = ((idle_view 1 [])\<lparr>v_space_waiting := [Thread 6, Thread 8]\<rparr>,
        ex_status(Thread 5 := THREAD_RUNNABLE))"
  by (simp add: clear_view_def signal_space_view_def unlock_view_def wake_first_def
      ex_view_def ex_status_def idle_view_def)

lemma ex_unlock_view:
  "unlock_view (((ex_view c)\<lparr>v_values := []\<rparr>)\<lparr>v_owner := Thread 4\<rparr>, ex_status)
     = ((ex_view c)\<lparr>v_values := []\<rparr>, ex_status)"
  by (simp add: unlock_view_def wake_first_def ex_view_def)

lemma ex_max_set_view:
  "max_set_view (Thread 4) 3 (ex_view 1, ex_status)
     = ((ex_view 3)\<lparr>v_space_waiting := [Thread 8]\<rparr>,
        ex_status(Thread 5 := THREAD_RUNNABLE, Thread 6 := THREAD_RUNNABLE))"
proof -
  have "max_set_signals 1 3 = 2" by (simp add: max_set_signals_def)
  then show ?thesis
    by (simp add: max_set_view_def signal_space_view_def unlock_view_def wake_first_def
        ex_view_def ex_status_def eval_nat_numeral)
qed

lemma q_pop_nonblock_empty:
  assumes "queue_sim w q X" and "v_values (fst X) = []" and "RTEST non_block"
  shows "\<exists>w' q'. rb_queue_pop w q [non_block]
             = Some ((if RTEST (v_owner (fst X)) then Stop
                      else Raise eThreadError ''queue empty''), w', q')
           \<and> queue_sim w' q'
               (if RTEST (v_owner (fst X)) then lock_wait_view (curr_thread w) X
                else unlock_view ((fst X)\<lparr>v_owner := curr_thread w\<rparr>, snd X))"
proof (cases "RTEST (v_owner (fst X))")
  case True
  from q_lock_held'[OF assms(1) True] obtain w' m' where
    lk: "lock_mutex w (mutex q) = Some (Stop, w', m')"
    and sim: "queue_sim w' (q\<lparr>mutex := m'\<rparr>) (lock_wait_view (curr_thread w) X)"
    by blast
  from lk have "rb_queue_pop w q [non_block] = Some (Stop, w', q\<lparr>mutex := m'\<rparr>)"
    by (simp add: rb_queue_pop_def)
  with True sim show ?thesis by auto
next
  case False
  define w1 where "w1 = w\<lparr>rb_thread_critical := 0\<rparr>"
  define q1 where "q1 = q\<lparr>mutex := (mutex q)\<lparr>owner := curr_thread w\<rparr>\<rparr>"
  define X1 where "X1 = ((fst X)\<lparr>v_owner := curr_thread w\<rparr>, snd X)"
  from q_lock_free[OF assms(1) False]
  have lk: "lock_mutex w (mutex q) = Some (Return (), w1, mutex q1)"
    and sim1: "queue_sim w1 q1 X1"
    by (simp_all add: w1_def q1_def X1_def)
  from queue_sim_values(3)[OF sim1] assms(2) have em: "entries (q_values q1) = None"
    by (simp add: X1_def)
  from q_unlock[OF sim1] obtain r w2 m2 where
    ul: "unlock_mutex w1 (mutex q1) = Some (r, w2, m2)"
    and sim2: "queue_sim w2 (q1\<lparr>mutex := m2\<rparr>) (unlock_view X1)"
    by auto
  have "rb_queue_pop w q [non_block]
      = Some (Raise eThreadError ''queue empty'', w2, q1\<lparr>mutex := m2\<rparr>)"
    using lk em ul assms(3) by (simp add: rb_queue_pop_def Let_def q1_def)
  with sim2 False show ?thesis unfolding X1_def by auto
qed

lemma queue_sim_waiting:
  assumes "queue_sim w q X"
  shows "array_from_list w (Mutex.waiting (mutex q)) = Some (Array (v_mutex_waiting (fst X)))"
    and "array_from_list w (ConditionVariable.waiting (value_available q))
           = Some (Array (v_value_waiting (fst X)))"
    and "array_from_list w (ConditionVariable.waiting (space_available q))
           = Some (Array (v_space_waiting (fst X)))"
  using assms unfolding queue_sim_def queue_inv_def by (auto dest: list_inv_array)

lemma lock_wait_view_fields [simp]:
  "v_owner (fst (lock_wait_view t X)) = v_owner (fst X)"
  "v_values (fst (lock_wait_view t X)) = v_values (fst X)"
  "v_capacity (fst (lock_wait_view t X)) = v_capacity (fst X)"
  "v_value_waiting (fst (lock_wait_view t X)) = v_value_waiting (fst X)"
  "v_space_waiting (fst (lock_wait_view t X)) = v_space_waiting (fst X)"
  "v_mutex_waiting (fst (lock_wait_view t X)) = v_mutex_waiting (fst X) @ [t]"
  by (simp_all add: lock_wait_view_def)








lemma exm_sim: "RTEST t \<or> t = Qnil \<Longrightarrow> queue_sim exm_world (exm_queue t) (exm_view t, ex_status)"
proof (intro queue_simI queue_invI[where Nm="{2}" and Nv="{}" and Ns="{}" and Nq="{}"])
  show "list_inv exm_world (Mutex.waiting (mutex (exm_queue t))) {2}
      (v_mutex_waiting (exm_view t))"
    by (rule list_invI[where as="[2]" and ps="[]"])
       (simp_all add: wf_list_def exm_world_def exm_queue_def exm_view_def node_values_def)
qed (simp_all add: exm_queue_def exm_view_def exm_world_def init_queue_def init_condvar_def
       list_inv_init)

section \<open>Queue: clear\<close>

text \<open>
  C8. \<open>rb_queue_clear\<close> on a queue whose mutex is free returns, leaves the queue without
  values and sends exactly one signal to ``space available'', whatever the number of
  values it discards (\<open>clear_view\<close> holds one \<open>signal_space_view\<close>: at most one waiting
  producer is woken), then releases the mutex. When the mutex is held the caller is
  stopped on the wait list of the mutex and nothing else has changed.
\<close>

theorem rb_queue_clear_spec:
  assumes "queue_sim w q X"
  shows "\<exists>w' q'. rb_queue_clear w q
             = Some ((if RTEST (v_owner (fst X)) then Stop else Return ()), w', q')
           \<and> queue_sim w' q'
               (if RTEST (v_owner (fst X)) then lock_wait_view (curr_thread w) X
                else clear_view (curr_thread w) X)
           \<and> array_from_list w' (q_values q')
               = Some (Array (if RTEST (v_owner (fst X)) then v_values (fst X) else []))"
proof (cases "RTEST (v_owner (fst X))")
  case True
  from q_lock_held'[OF assms True] obtain w' m' where
    lk: "lock_mutex w (mutex q) = Some (Stop, w', m')"
    and sim: "queue_sim w' (q\<lparr>mutex := m'\<rparr>) (lock_wait_view (curr_thread w) X)"
    by blast
  from lk have "rb_queue_clear w q = Some (Stop, w', q\<lparr>mutex := m'\<rparr>)"
    by (simp add: rb_queue_clear_def)
  moreover from queue_sim_values(1)[OF sim]
  have "array_from_list w' (q_values (q\<lparr>mutex := m'\<rparr>)) = Some (Array (v_values (fst X)))"
    by (simp add: lock_wait_view_def)
  ultimately show ?thesis using True sim by auto
next
  case False
  define w1 where "w1 = w\<lparr>rb_thread_critical := 0\<rparr>"
  define q1 where "q1 = q\<lparr>mutex := (mutex q)\<lparr>owner := curr_thread w\<rparr>\<rparr>"
  define X1 where "X1 = ((fst X)\<lparr>v_owner := curr_thread w\<rparr>, snd X)"
  define X2 where "X2 = ((fst X)\<lparr>v_owner := curr_thread w, v_values := []\<rparr>, snd X)"
  from q_lock_free[OF assms False]
  have lk: "lock_mutex w (mutex q) = Some (Return (), w1, mutex q1)"
    and sim1: "queue_sim w1 q1 X1"
    by (simp_all add: w1_def q1_def X1_def)
  from q_clear_values[OF sim1] obtain w2 l2 where
    cl: "clear_list w1 (q_values q1) = Some (w2, l2)"
    and sim2: "queue_sim w2 (q1\<lparr>q_values := l2\<rparr>) X2"
    by (auto simp: X1_def X2_def)
  from q_signal_space[OF sim2] obtain w3 cv3 where
    sg: "signal_condvar w2 (space_available q1) = Some (w3, cv3)"
    and sim3: "queue_sim w3 (q1\<lparr>q_values := l2, space_available := cv3\<rparr>) (signal_space_view X2)"
    by auto
  from q_unlock[OF sim3] obtain r w4 m4 where
    ul: "unlock_mutex w3 (mutex q1) = Some (r, w4, m4)"
    and sim4: "queue_sim w4 (q1\<lparr>q_values := l2, space_available := cv3, mutex := m4\<rparr>)
        (clear_view (curr_thread w) X)"
    by (auto simp: clear_view_def X2_def)
  have res: "rb_queue_clear w q
      = Some (Return (), w4, q1\<lparr>q_values := l2, space_available := cv3, mutex := m4\<rparr>)"
    using lk cl sg ul by (simp add: rb_queue_clear_def Let_def q1_def)
  from queue_sim_values(1)[OF sim4]
  have "array_from_list w4 (q_values (q1\<lparr>q_values := l2, space_available := cv3, mutex := m4\<rparr>))
      = Some (Array [])"
    by (simp add: clear_view_def)
  with res sim4 False show ?thesis by auto
qed

theorem rb_queue_clear_spec_witness:
  "queue_sim ex_world (ex_queue 1) (ex_view 1, ex_status)
   \<and> (\<exists>w' q'. rb_queue_clear ex_world (ex_queue 1) = Some (Return (), w', q')
         \<and> queue_sim w' q'
             ((idle_view 1 [])\<lparr>v_space_waiting := [Thread 6, Thread 8]\<rparr>,
              ex_status(Thread 5 := THREAD_RUNNABLE))
         \<and> array_from_list w' (q_values q') = Some (Array [])
         \<and> array_from_list w' (ConditionVariable.waiting (space_available q'))
             = Some (Array [Thread 6, Thread 8])
         \<and> thread_status_of w' (Thread 5) = THREAD_RUNNABLE
         \<and> thread_status_of w' (Thread 6) = THREAD_STOPPED
         \<and> thread_status_of w' (Thread 8) = THREAD_STOPPED)"
proof -
  have free: "\<not> RTEST (v_owner (fst (ex_view 1, ex_status)))"
    and cur: "curr_thread ex_world = Thread 4"
    by (simp_all add: ex_view_def ex_world_def)
  from rb_queue_clear_spec[OF ex_sim[of 1]] free obtain w' q' where
    r: "rb_queue_clear ex_world (ex_queue 1) = Some (Return (), w', q')"
    and sim': "queue_sim w' q'
        ((idle_view 1 [])\<lparr>v_space_waiting := [Thread 6, Thread 8]\<rparr>,
         ex_status(Thread 5 := THREAD_RUNNABLE))"
    and em: "array_from_list w' (q_values q') = Some (Array [])"
    unfolding cur ex_clear_view by auto
  from queue_sim_waiting(3)[OF sim']
  have sw: "array_from_list w' (ConditionVariable.waiting (space_available q'))
      = Some (Array [Thread 6, Thread 8])"
    by simp
  from queue_simD(2)[OF sim']
  have st: "thread_status_of w' = ex_status(Thread 5 := THREAD_RUNNABLE)" by simp
  have "thread_status_of w' (Thread 5) = THREAD_RUNNABLE"
    "thread_status_of w' (Thread 6) = THREAD_STOPPED"
    "thread_status_of w' (Thread 8) = THREAD_STOPPED"
    unfolding st by (simp_all add: ex_status_def)
  with r sim' em sw ex_sim[of 1] show ?thesis by blast
qed

section \<open>Queue: pop without blocking\<close>

text \<open>
  C6 (as amended). \<open>rb_queue_pop\<close> with a true argument (the caller asks not to block)
  on a queue without values and with a free mutex raises ThreadError "queue empty"; the
  values, the capacity and the wait lists of both condition variables are what they
  were (the caller has not been put on any of them), and the mutex has been released:
  it has no owner, and \<open>unlock_mutex\<close> has taken the first waiter that is not killed
  (and any killed ones before it) off the wait list of the mutex and made it runnable.
  When the mutex is held the call does not raise: the caller is appended to the wait
  list of the mutex and stopped.
\<close>

theorem rb_queue_pop_nonblock_empty:
  assumes "queue_sim w q X" and "v_values (fst X) = []" and "RTEST non_block"
  shows "\<exists>w' q'. rb_queue_pop w q [non_block]
             = Some ((if RTEST (v_owner (fst X)) then Stop
                      else Raise eThreadError ''queue empty''), w', q')
           \<and> queue_sim w' q'
               (if RTEST (v_owner (fst X)) then lock_wait_view (curr_thread w) X
                else unlock_view ((fst X)\<lparr>v_owner := curr_thread w\<rparr>, snd X))
           \<and> array_from_list w' (q_values q') = Some (Array [])
           \<and> array_from_list w' (ConditionVariable.waiting (value_available q'))
               = array_from_list w (ConditionVariable.waiting (value_available q))
           \<and> array_from_list w' (ConditionVariable.waiting (space_available q'))
               = array_from_list w (ConditionVariable.waiting (space_available q))
           \<and> capacity q' = capacity q
           \<and> owner (mutex q') = (if RTEST (v_owner (fst X)) then owner (mutex q) else Qnil)
           \<and> array_from_list w (Mutex.waiting (mutex q)) = Some (Array (v_mutex_waiting (fst X)))
           \<and> array_from_list w' (Mutex.waiting (mutex q'))
               = Some (Array (if RTEST (v_owner (fst X))
                              then v_mutex_waiting (fst X) @ [curr_thread w]
                              else snd (snd (wake_first (snd X) (v_mutex_waiting (fst X))))))"
proof -
  from q_pop_nonblock_empty[OF assms] obtain w' q' where
    r: "rb_queue_pop w q [non_block]
          = Some ((if RTEST (v_owner (fst X)) then Stop
                   else Raise eThreadError ''queue empty''), w', q')"
    and sim': "queue_sim w' q'
          (if RTEST (v_owner (fst X)) then lock_wait_view (curr_thread w) X
           else unlock_view ((fst X)\<lparr>v_owner := curr_thread w\<rparr>, snd X))"
    by blast
  note a = queue_sim_waiting[OF assms(1)] and a' = queue_sim_waiting[OF sim']
  have "array_from_list w' (q_values q') = Some (Array [])"
    using queue_sim_values(1)[OF sim'] assms(2) by (simp split: if_splits)
  moreover have "array_from_list w' (ConditionVariable.waiting (value_available q'))
      = array_from_list w (ConditionVariable.waiting (value_available q))"
    using a(2) a'(2) by (simp split: if_splits)
  moreover have "array_from_list w' (ConditionVariable.waiting (space_available q'))
      = array_from_list w (ConditionVariable.waiting (space_available q))"
    using a(3) a'(3) by (simp split: if_splits)
  moreover have "capacity q' = capacity q"
    using queue_sim_capacity[OF sim'] queue_sim_capacity[OF assms(1)] by (simp split: if_splits)
  moreover have "owner (mutex q') = (if RTEST (v_owner (fst X)) then owner (mutex q) else Qnil)"
    using queue_sim_owner[OF sim'] queue_sim_owner[OF assms(1)] queue_simD(3)[OF assms(1)]
    by (simp add: unlock_view_def split_beta split: if_splits)
  moreover have "array_from_list w' (Mutex.waiting (mutex q'))
      = Some (Array (if RTEST (v_owner (fst X))
                     then v_mutex_waiting (fst X) @ [curr_thread w]
                     else snd (snd (wake_first (snd X) (v_mutex_waiting (fst X))))))"
    using a'(1) queue_simD(3)[OF assms(1)]
    by (simp add: unlock_view_def split_beta split: if_splits)
  ultimately show ?thesis using r sim' a(1) by blast
qed

theorem rb_queue_pop_nonblock_empty_witness:
  "queue_sim ex_world ((ex_queue 1)\<lparr>q_values := init_list\<rparr>) ((ex_view 1)\<lparr>v_values := []\<rparr>, ex_status)
   \<and> v_values (fst ((ex_view 1)\<lparr>v_values := []\<rparr>, ex_status)) = []
   \<and> RTEST Qtrue
   \<and> (\<exists>w' q'. rb_queue_pop ex_world ((ex_queue 1)\<lparr>q_values := init_list\<rparr>) [Qtrue]
                  = Some (Raise eThreadError ''queue empty'', w', q')
         \<and> queue_sim w' q' ((ex_view 1)\<lparr>v_values := []\<rparr>, ex_status)
         \<and> array_from_list w' (q_values q') = Some (Array [])
         \<and> array_from_list w' (ConditionVariable.waiting (value_available q'))
             = Some (Array [])
         \<and> array_from_list w' (ConditionVariable.waiting (space_available q'))
             = Some (Array [Thread 5, Thread 6, Thread 8])
         \<and> capacity q' = 1
         \<and> owner (mutex q') = Qnil
         \<and> array_from_list w' (Mutex.waiting (mutex q')) = Some (Array []))"
proof -
  have free: "\<not> RTEST (v_owner (fst ((ex_view 1)\<lparr>v_values := []\<rparr>, ex_status)))"
    and cur: "curr_thread ex_world = Thread 4"
    and emp: "v_values (fst ((ex_view 1)\<lparr>v_values := []\<rparr>, ex_status)) = []"
    and nb: "RTEST Qtrue"
    and cap: "capacity ((ex_queue 1)\<lparr>q_values := init_list\<rparr>) = 1"
    and mw: "v_mutex_waiting (fst ((ex_view 1)\<lparr>v_values := []\<rparr>, ex_status)) = []"
    by (simp_all add: ex_view_def ex_world_def ex_queue_def)
  have va: "array_from_list ex_world
        (ConditionVariable.waiting (value_available ((ex_queue 1)\<lparr>q_values := init_list\<rparr>)))
      = Some (Array [])"
    and sa: "array_from_list ex_world
        (ConditionVariable.waiting (space_available ((ex_queue 1)\<lparr>q_values := init_list\<rparr>)))
      = Some (Array [Thread 5, Thread 6, Thread 8])"
    using queue_sim_waiting(2,3)[OF ex_sim_empty[of 1]] by (simp_all add: ex_view_def)
  from rb_queue_pop_nonblock_empty[OF ex_sim_empty[of 1] emp nb] free
  obtain w' q' where
    "rb_queue_pop ex_world ((ex_queue 1)\<lparr>q_values := init_list\<rparr>) [Qtrue]
       = Some (Raise eThreadError ''queue empty'', w', q')"
    "queue_sim w' q' ((ex_view 1)\<lparr>v_values := []\<rparr>, ex_status)"
    "array_from_list w' (q_values q') = Some (Array [])"
    "array_from_list w' (ConditionVariable.waiting (value_available q')) = Some (Array [])"
    "array_from_list w' (ConditionVariable.waiting (space_available q'))
       = Some (Array [Thread 5, Thread 6, Thread 8])"
    "capacity q' = 1"
    "owner (mutex q') = Qnil"
    "array_from_list w' (Mutex.waiting (mutex q')) = Some (Array [])"
    unfolding cur va sa cap mw by (auto simp: ex_unlock_view wake_first_def)
  with ex_sim_empty[of 1] emp nb show ?thesis by blast
qed

text \<open>
  C6 as stated fails twice. With a free mutex and thread 5 waiting for it, the call
  raises but the wait list of the mutex is not what it was: thread 5 has been taken off
  it and made runnable. With the mutex held by thread 9 the call does not raise: the
  caller, thread 4, is put on the wait list of the mutex and stopped.
\<close>

theorem pop_nonblock_counterexample:
  "(\<exists>w' q'. rb_queue_pop exm_world (exm_queue Qnil) [Qtrue]
                 = Some (Raise eThreadError ''queue empty'', w', q')
        \<and> array_from_list exm_world (Mutex.waiting (mutex (exm_queue Qnil)))
            = Some (Array [Thread 5])
        \<and> array_from_list w' (Mutex.waiting (mutex q')) = Some (Array [])
        \<and> thread_status_of exm_world (Thread 5) = THREAD_STOPPED
        \<and> thread_status_of w' (Thread 5) = THREAD_RUNNABLE)
   \<and> (\<exists>w' q'. rb_queue_pop exm_world (exm_queue (Thread 9)) [Qtrue] = Some (Stop, w', q')
        \<and> array_from_list exm_world (q_values (exm_queue (Thread 9))) = Some (Array [])
        \<and> array_from_list w' (Mutex.waiting (mutex q')) = Some (Array [Thread 5, Thread 4])
        \<and> thread_status_of w' (Thread 4) = THREAD_STOPPED)"
proof -
  have cur: "curr_thread exm_world = Thread 4" by (simp add: exm_world_def)
  have free: "\<exists>w' q'. rb_queue_pop exm_world (exm_queue Qnil) [Qtrue]
                 = Some (Raise eThreadError ''queue empty'', w', q')
        \<and> array_from_list exm_world (Mutex.waiting (mutex (exm_queue Qnil)))
            = Some (Array [Thread 5])
        \<and> array_from_list w' (Mutex.waiting (mutex q')) = Some (Array [])
        \<and> thread_status_of exm_world (Thread 5) = THREAD_STOPPED
        \<and> thread_status_of w' (Thread 5) = THREAD_RUNNABLE"
  proof -
    have sim: "queue_sim exm_world (exm_queue Qnil) (exm_view Qnil, ex_status)"
      by (rule exm_sim) simp
    have e5: "ex_status (Thread 5) = THREAD_STOPPED" by (simp add: ex_status_def)
    from q_pop_nonblock_empty[OF sim, of Qtrue] obtain w' q' where
      r: "rb_queue_pop exm_world (exm_queue Qnil) [Qtrue]
            = Some (Raise eThreadError ''queue empty'', w', q')"
      and sim': "queue_sim w' q'
          ((exm_view Qnil)\<lparr>v_mutex_waiting := []\<rparr>, ex_status(Thread 5 := THREAD_RUNNABLE))"
      unfolding cur by (auto simp: exm_view_def unlock_view_def wake_first_def e5)
    from queue_sim_waiting(1)[OF sim]
    have b: "array_from_list exm_world (Mutex.waiting (mutex (exm_queue Qnil)))
        = Some (Array [Thread 5])"
      by (simp add: exm_view_def)
    from queue_sim_waiting(1)[OF sim']
    have a: "array_from_list w' (Mutex.waiting (mutex q')) = Some (Array [])" by simp
    from queue_simD(2)[OF sim']
    have s: "thread_status_of w' (Thread 5) = THREAD_RUNNABLE" by simp
    have s0: "thread_status_of exm_world (Thread 5) = THREAD_STOPPED"
      by (simp add: exm_world_def ex_status_def)
    from r a b s s0 show ?thesis by blast
  qed
  moreover have "\<exists>w' q'. rb_queue_pop exm_world (exm_queue (Thread 9)) [Qtrue] = Some (Stop, w', q')
        \<and> array_from_list exm_world (q_values (exm_queue (Thread 9))) = Some (Array [])
        \<and> array_from_list w' (Mutex.waiting (mutex q')) = Some (Array [Thread 5, Thread 4])
        \<and> thread_status_of w' (Thread 4) = THREAD_STOPPED"
  proof -
    have sim: "queue_sim exm_world (exm_queue (Thread 9)) (exm_view (Thread 9), ex_status)"
      by (rule exm_sim) simp
    from q_pop_nonblock_empty[OF sim, of Qtrue] obtain w' q' where
      r: "rb_queue_pop exm_world (exm_queue (Thread 9)) [Qtrue] = Some (Stop, w', q')"
      and sim': "queue_sim w' q' (lock_wait_view (Thread 4) (exm_view (Thread 9), ex_status))"
      unfolding cur by (auto simp: exm_view_def)
    from queue_sim_values(1)[OF sim]
    have b: "array_from_list exm_world (q_values (exm_queue (Thread 9))) = Some (Array [])"
      by (simp add: exm_view_def)
    from queue_sim_waiting(1)[OF sim']
    have a: "array_from_list w' (Mutex.waiting (mutex q')) = Some (Array [Thread 5, Thread 4])"
      by (simp add: exm_view_def)
    from queue_simD(2)[OF sim']
    have s: "thread_status_of w' (Thread 4) = THREAD_STOPPED"
      by (simp add: lock_wait_view_def)
    from r a b s show ?thesis by blast
  qed
  ultimately show ?thesis by blast
qed

section \<open>SizedQueue: setting the capacity\<close>

text \<open>
  C1 (as amended). \<open>rb_sized_queue_max_set\<close> with an accepted new capacity \<open>n\<close> (at
  least 1) on a queue with a free mutex stores \<open>n\<close> and sends \<open>max_set_signals old n\<close>
  signals to ``space available'' before it releases the mutex: \<open>n - old\<close> when the
  capacity \<open>old\<close> is not zero and smaller than \<open>n\<close>, none when \<open>old\<close> is zero or not
  smaller than \<open>n\<close>. When the mutex is held the caller is stopped on the wait list of
  the mutex and the capacity is what it was.
\<close>

theorem rb_sized_queue_max_set_spec:
  assumes "queue_sim w q X" and "NUM2ULONG v = Inr n" and "1 \<le> n"
  shows "\<exists>w' q'. rb_sized_queue_max_set NUM2ULONG w q v
             = Some ((if RTEST (v_owner (fst X)) then Stop else Return ()), w', q')
           \<and> queue_sim w' q'
               (if RTEST (v_owner (fst X)) then lock_wait_view (curr_thread w) X
                else max_set_view (curr_thread w) n X)
           \<and> capacity q' = (if RTEST (v_owner (fst X)) then v_capacity (fst X) else n)"
proof (cases "RTEST (v_owner (fst X))")
  case True
  from assms(3) have n1: "\<not> n < 1" by (rule word_one_le_not_less)
  from q_lock_held'[OF assms(1) True] obtain w' m' where
    lk: "lock_mutex w (mutex q) = Some (Stop, w', m')"
    and sim: "queue_sim w' (q\<lparr>mutex := m'\<rparr>) (lock_wait_view (curr_thread w) X)"
    by blast
  from lk assms(2) n1 have "rb_sized_queue_max_set NUM2ULONG w q v = Some (Stop, w', q\<lparr>mutex := m'\<rparr>)"
    by (simp add: rb_sized_queue_max_set_def)
  moreover from queue_sim_capacity[OF assms(1)] have "capacity (q\<lparr>mutex := m'\<rparr>) = v_capacity (fst X)"
    by simp
  ultimately show ?thesis using True sim by auto
next
  case False
  from assms(3) have n1: "\<not> n < 1" by (rule word_one_le_not_less)
  define w1 where "w1 = w\<lparr>rb_thread_critical := 0\<rparr>"
  define q1 where "q1 = q\<lparr>mutex := (mutex q)\<lparr>owner := curr_thread w\<rparr>\<rparr>"
  define X1 where "X1 = ((fst X)\<lparr>v_owner := curr_thread w\<rparr>, snd X)"
  define X2 where "X2 = ((fst X)\<lparr>v_owner := curr_thread w, v_capacity := n\<rparr>, snd X)"
  define d :: "64 word" where
    "d = (if capacity q \<noteq> 0 \<and> n > capacity q then n - capacity q else 0)"
  from q_lock_free[OF assms(1) False]
  have lk: "lock_mutex w (mutex q) = Some (Return (), w1, mutex q1)"
    and sim1: "queue_sim w1 q1 X1"
    by (simp_all add: w1_def q1_def X1_def)
  from queue_sim_capacity[OF assms(1)] have cap: "capacity q = v_capacity (fst X)" .
  have du: "unat d = max_set_signals (v_capacity (fst X)) n"
    unfolding d_def max_set_signals_def cap by (auto intro: unat_sub_le)
  from queue_sim_set_capacity[OF sim1, of n]
  have sim2: "queue_sim w1 (q1\<lparr>capacity := n\<rparr>) X2" by (simp add: X1_def X2_def)
  from q_signal_loop[OF sim2, of d] obtain w3 cv3 where
    sg: "signal_loop d w1 (space_available q1) = Some (w3, cv3)"
    and sim3: "queue_sim w3 (q1\<lparr>capacity := n, space_available := cv3\<rparr>)
        ((signal_space_view ^^ max_set_signals (v_capacity (fst X)) n) X2)"
    by (auto simp: du)
  from q_unlock[OF sim3] obtain r w4 m4 where
    ul: "unlock_mutex w3 (mutex q1) = Some (r, w4, m4)"
    and sim4: "queue_sim w4 (q1\<lparr>capacity := n, space_available := cv3, mutex := m4\<rparr>)
        (max_set_view (curr_thread w) n X)"
    by (auto simp: max_set_view_def X2_def)
  have res: "rb_sized_queue_max_set NUM2ULONG w q v
      = Some (Return (), w4, q1\<lparr>capacity := n, space_available := cv3, mutex := m4\<rparr>)"
    using lk sg ul assms(2) n1
    by (simp add: rb_sized_queue_max_set_def Let_def q1_def d_def[symmetric]
          del: signal_loop.simps split del: if_split cong: if_cong)
  with sim4 False show ?thesis by auto
qed

theorem rb_sized_queue_max_set_spec_witness:
  "queue_sim ex_world (ex_queue 1) (ex_view 1, ex_status)
   \<and> ex_NUM2ULONG (Integer 3) = Inr 3 \<and> (1::64 word) \<le> 3
   \<and> max_set_signals 1 3 = 2
   \<and> (\<exists>w' q'. rb_sized_queue_max_set ex_NUM2ULONG ex_world (ex_queue 1) (Integer 3)
                  = Some (Return (), w', q')
         \<and> queue_sim w' q'
             ((ex_view 3)\<lparr>v_space_waiting := [Thread 8]\<rparr>,
              ex_status(Thread 5 := THREAD_RUNNABLE, Thread 6 := THREAD_RUNNABLE))
         \<and> capacity q' = 3
         \<and> array_from_list w' (ConditionVariable.waiting (space_available q'))
             = Some (Array [Thread 8])
         \<and> thread_status_of w' (Thread 5) = THREAD_RUNNABLE
         \<and> thread_status_of w' (Thread 6) = THREAD_RUNNABLE
         \<and> thread_status_of w' (Thread 8) = THREAD_STOPPED)"
proof -
  have free: "\<not> RTEST (v_owner (fst (ex_view 1, ex_status)))"
    and cur: "curr_thread ex_world = Thread 4"
    and conv: "ex_NUM2ULONG (Integer 3) = Inr 3" and pos: "(1::64 word) \<le> 3"
    and k: "max_set_signals 1 3 = 2"
    by (simp_all add: ex_view_def ex_world_def ex_NUM2ULONG_def max_set_signals_def)
  from rb_sized_queue_max_set_spec[where NUM2ULONG=ex_NUM2ULONG and v="Integer 3" and n=3,
      OF ex_sim[of 1] conv pos] free
  obtain w' q' where
    r: "rb_sized_queue_max_set ex_NUM2ULONG ex_world (ex_queue 1) (Integer 3)
          = Some (Return (), w', q')"
    and sim': "queue_sim w' q'
        ((ex_view 3)\<lparr>v_space_waiting := [Thread 8]\<rparr>,
         ex_status(Thread 5 := THREAD_RUNNABLE, Thread 6 := THREAD_RUNNABLE))"
    and cap: "capacity q' = 3"
    unfolding cur ex_max_set_view by auto
  from queue_sim_waiting(3)[OF sim']
  have sw: "array_from_list w' (ConditionVariable.waiting (space_available q'))
      = Some (Array [Thread 8])"
    by simp
  from queue_simD(2)[OF sim']
  have st: "thread_status_of w'
      = ex_status(Thread 5 := THREAD_RUNNABLE, Thread 6 := THREAD_RUNNABLE)" by simp
  have "thread_status_of w' (Thread 5) = THREAD_RUNNABLE"
    "thread_status_of w' (Thread 6) = THREAD_RUNNABLE"
    "thread_status_of w' (Thread 8) = THREAD_STOPPED"
    unfolding st by (simp_all add: ex_status_def)
  with r sim' cap sw ex_sim[of 1] conv pos k show ?thesis by blast
qed

text \<open>
  C1 as stated fails for a queue of capacity 0: setting the capacity of the example
  queue from 0 to 3 changes the capacity and nothing else; thread 5 is still stopped on
  the ``space available'' list (as are the threads 6 and 8), where a single signal
  would have made it runnable and taken it off the list.
\<close>

theorem max_set_unbounded_counterexample:
  "rb_sized_queue_max_set ex_NUM2ULONG ex_world (ex_queue 0) (Integer 3)
     = Some (Return (), ex_world, ex_queue 3)
   \<and> array_from_list ex_world (ConditionVariable.waiting (space_available (ex_queue 3)))
       = Some (Array [Thread 5, Thread 6, Thread 8])
   \<and> thread_status_of ex_world (Thread 5) = THREAD_STOPPED
   \<and> (\<exists>w' cv'. signal_condvar ex_world (space_available (ex_queue 3)) = Some (w', cv')
         \<and> array_from_list w' (ConditionVariable.waiting cv')
             = Some (Array [Thread 6, Thread 8])
         \<and> thread_status_of w' (Thread 5) = THREAD_RUNNABLE)"
proof -
  have lk: "lock_mutex ex_world (mutex (ex_queue 0))
      = Some (Return (), ex_world, init_mutex\<lparr>owner := Thread 4\<rparr>)"
    by (simp add: lock_mutex_def ex_queue_def init_mutex_def ex_world_def)
  have "rb_sized_queue_max_set ex_NUM2ULONG ex_world (ex_queue 0) (Integer 3)
      = Some (Return (), ex_world, ex_queue 3)"
    using lk ex_unlock
    by (simp add: rb_sized_queue_max_set_def ex_NUM2ULONG_def Let_def)
       (simp add: ex_queue_def)
  moreover have "array_from_list ex_world (ConditionVariable.waiting (space_available (ex_queue 3)))
       = Some (Array [Thread 5, Thread 6, Thread 8])"
    using queue_sim_waiting(3)[OF ex_sim[of 3]] by (simp add: ex_view_def)
  moreover have "thread_status_of ex_world (Thread 5) = THREAD_STOPPED"
    by (simp add: ex_world_def ex_status_def)
  moreover have "\<exists>w' cv'. signal_condvar ex_world (space_available (ex_queue 3)) = Some (w', cv')
         \<and> array_from_list w' (ConditionVariable.waiting cv')
             = Some (Array [Thread 6, Thread 8])
         \<and> thread_status_of w' (Thread 5) = THREAD_RUNNABLE"
  proof -
    from q_signal_space[OF ex_sim[of 3]] obtain w' cv' where
      s: "signal_condvar ex_world (space_available (ex_queue 3)) = Some (w', cv')"
      and sim': "queue_sim w' ((ex_queue 3)\<lparr>space_available := cv'\<rparr>)
          (signal_space_view (ex_view 3, ex_status))"
      by blast
    from queue_sim_waiting(3)[OF sim'] queue_simD(2)[OF sim'] s show ?thesis
      by (simp add: ex_signal_view)
  qed
  ultimately show ?thesis by simp
qed

section \<open>Queue: marshal_load and marshal_dump\<close>







end
